theory Spec2Isabelle
  imports Complex_Main "HOL-Library.AList"
begin

section \<open>JavaScript numbers\<close>

text \<open>
  The load tester computes with JavaScript numbers, the doubles of IEEE 754. A number is
  modelled as a rational (every finite double is one) or as one of the three special
  values that a division by zero produces: the two infinities and NaN. The sign of zero
  is not modelled: a zero divisor is the positive zero, the only zero that the profiles
  produce from non-negative inputs.

  There are two families of operations. \<open>js_add\<close>, \<open>js_mul\<close> and \<open>js_div\<close> return the
  exact result. They are used for the counters, the ranks and the latencies, and in the
  spike and stress profiles, where the operands are integers, quarters and the literals
  \<open>0.1\<close>, \<open>0.2\<close>, \<open>0.95\<close>, \<open>0.99\<close>, taken as the rationals they denote, and where the
  code goes on with \<open>Math.floor\<close> or \<open>Math.round\<close>. \<open>js_add_r\<close>, \<open>js_mul_r\<close> and
  \<open>js_div_r\<close> (below) round the exact result to the nearest double. They are used where
  a rounded quotient is multiplied on: in the ramp-up and custom profiles and in the
  rates of a tick and of the summary.
\<close>

datatype jsnum = Fin rat | PosInf | NegInf | NaN

abbreviation jsint :: "int \<Rightarrow> jsnum" where
  "jsint k \<equiv> Fin (rat_of_int k)"

fun sgn_of :: "jsnum \<Rightarrow> rat" where
  "sgn_of (Fin a) = sgn a"
| "sgn_of PosInf = 1"
| "sgn_of NegInf = - 1"
| "sgn_of NaN = 0"

definition inf_of_sign :: "rat \<Rightarrow> jsnum" where
  "inf_of_sign s = (if s = 0 then NaN else if 0 < s then PosInf else NegInf)"

fun js_neg :: "jsnum \<Rightarrow> jsnum" where
  "js_neg (Fin a) = Fin (- a)"
| "js_neg PosInf = NegInf"
| "js_neg NegInf = PosInf"
| "js_neg NaN = NaN"

fun js_add :: "jsnum \<Rightarrow> jsnum \<Rightarrow> jsnum" where
  "js_add (Fin a) (Fin b) = Fin (a + b)"
| "js_add NaN _ = NaN"
| "js_add _ NaN = NaN"
| "js_add PosInf NegInf = NaN"
| "js_add NegInf PosInf = NaN"
| "js_add PosInf _ = PosInf"
| "js_add _ PosInf = PosInf"
| "js_add NegInf _ = NegInf"
| "js_add _ NegInf = NegInf"

definition js_sub :: "jsnum \<Rightarrow> jsnum \<Rightarrow> jsnum" where
  "js_sub a b = js_add a (js_neg b)"

fun js_mul :: "jsnum \<Rightarrow> jsnum \<Rightarrow> jsnum" where
  "js_mul (Fin a) (Fin b) = Fin (a * b)"
| "js_mul NaN _ = NaN"
| "js_mul _ NaN = NaN"
| "js_mul a b = inf_of_sign (sgn_of a * sgn_of b)"

fun js_div :: "jsnum \<Rightarrow> jsnum \<Rightarrow> jsnum" where
  "js_div (Fin a) (Fin b) = (if b = 0 then inf_of_sign (sgn a) else Fin (a / b))"
| "js_div NaN _ = NaN"
| "js_div _ NaN = NaN"
| "js_div (Fin a) _ = Fin 0"
| "js_div a (Fin b) = inf_of_sign (sgn_of a * (if b < 0 then - 1 else 1))"
| "js_div _ _ = NaN"

text \<open>Comparisons: every comparison with NaN is false.\<close>

fun js_le :: "jsnum \<Rightarrow> jsnum \<Rightarrow> bool" where
  "js_le (Fin a) (Fin b) = (a \<le> b)"
| "js_le NaN _ = False"
| "js_le _ NaN = False"
| "js_le NegInf _ = True"
| "js_le _ PosInf = True"
| "js_le _ _ = False"

fun js_lt :: "jsnum \<Rightarrow> jsnum \<Rightarrow> bool" where
  "js_lt (Fin a) (Fin b) = (a < b)"
| "js_lt NaN _ = False"
| "js_lt _ NaN = False"
| "js_lt PosInf _ = False"
| "js_lt _ NegInf = False"
| "js_lt _ _ = True"

definition js_ge :: "jsnum \<Rightarrow> jsnum \<Rightarrow> bool" where
  "js_ge a b = js_le b a"

definition js_gt :: "jsnum \<Rightarrow> jsnum \<Rightarrow> bool" where
  "js_gt a b = js_lt b a"

text \<open>\<open>Math.floor\<close>, \<open>Math.round\<close> (halves go up), \<open>Math.min\<close> and \<open>Math.max\<close>.\<close>

fun js_floor :: "jsnum \<Rightarrow> jsnum" where
  "js_floor (Fin a) = jsint \<lfloor>a\<rfloor>"
| "js_floor x = x"

fun js_round :: "jsnum \<Rightarrow> jsnum" where
  "js_round (Fin a) = jsint \<lfloor>a + 1 / 2\<rfloor>"
| "js_round x = x"

fun js_min :: "jsnum \<Rightarrow> jsnum \<Rightarrow> jsnum" where
  "js_min NaN _ = NaN"
| "js_min _ NaN = NaN"
| "js_min a b = (if js_le a b then a else b)"

fun js_max :: "jsnum \<Rightarrow> jsnum \<Rightarrow> jsnum" where
  "js_max NaN _ = NaN"
| "js_max _ NaN = NaN"
| "js_max a b = (if js_le a b then b else a)"

subsection \<open>Rounding to a double\<close>

text \<open>
  \<open>expo x\<close> is the binary exponent of a positive \<open>x\<close>: \<open>2^e \<le> x < 2^(e+1)\<close>.
  \<open>rne\<close> rounds to the nearest integer, a tie to the even one. \<open>fl x\<close> is the double
  nearest to \<open>x\<close>: 53 significant bits, and below \<open>2^-1022\<close> the fixed spacing
  \<open>2^-1074\<close> of the subnormal numbers. \<open>of_fl\<close> adds the overflow: a rounded value of
  \<open>2^1024\<close> or more is an infinity.
\<close>

function expo :: "rat \<Rightarrow> int" where
  "expo x =
     (if x \<le> 0 then 0
      else if x < 1 then expo (2 * x) - 1
      else if 2 \<le> x then expo (x / 2) + 1
      else 0)"
  by pat_completeness auto
termination
proof (relation "measures [\<lambda>x. nat \<lceil>1 / x\<rceil>, \<lambda>x. nat \<lfloor>x\<rfloor>]")
  show "wf (measures [\<lambda>x::rat. nat \<lceil>1 / x\<rceil>, \<lambda>x. nat \<lfloor>x\<rfloor>])" by simp
next
  fix x :: rat
  assume "\<not> x \<le> 0" "x < 1"
  then have pos: "0 < x" by simp
  have "1 < 1 / x" using pos \<open>x < 1\<close> by simp
  then have c2: "2 \<le> \<lceil>1 / x\<rceil>" by linarith
  have "1 / (2 * x) = (1 / x) / 2" by simp
  also have "\<dots> \<le> rat_of_int \<lceil>1 / x\<rceil> / 2" by (simp add: divide_right_mono)
  also have "\<dots> \<le> rat_of_int (\<lceil>1 / x\<rceil> - 1)" using c2 by simp
  finally have "\<lceil>1 / (2 * x)\<rceil> \<le> \<lceil>1 / x\<rceil> - 1" by (simp only: ceiling_le_iff)
  then have "nat \<lceil>1 / (2 * x)\<rceil> < nat \<lceil>1 / x\<rceil>" using c2 by linarith
  then show "(2 * x, x) \<in> measures [\<lambda>x. nat \<lceil>1 / x\<rceil>, \<lambda>x. nat \<lfloor>x\<rfloor>]" by simp
next
  fix x :: rat
  assume "\<not> x \<le> 0" "\<not> x < 1" "2 \<le> x"
  have "0 < 1 / (x / 2)" "1 / (x / 2) \<le> 1" using \<open>2 \<le> x\<close> by simp_all
  then have a: "\<lceil>1 / (x / 2)\<rceil> = 1" by (simp add: ceiling_eq_iff)
  have "0 < 1 / x" "1 / x \<le> 1" using \<open>2 \<le> x\<close> by simp_all
  then have b: "\<lceil>1 / x\<rceil> = 1" by (simp add: ceiling_eq_iff)
  have "x / 2 \<le> x - 1" using \<open>2 \<le> x\<close> by simp
  then have "\<lfloor>x / 2\<rfloor> \<le> \<lfloor>x - 1\<rfloor>" by (rule floor_mono)
  moreover have "2 \<le> \<lfloor>x\<rfloor>" using \<open>2 \<le> x\<close> by linarith
  ultimately have "nat \<lfloor>x / 2\<rfloor> < nat \<lfloor>x\<rfloor>" by simp
  then show "(x / 2, x) \<in> measures [\<lambda>x. nat \<lceil>1 / x\<rceil>, \<lambda>x. nat \<lfloor>x\<rfloor>]"
    using a b by simp
qed

declare expo.simps [simp del]

definition rne :: "rat \<Rightarrow> int" where
  "rne y =
     (let f = \<lfloor>y\<rfloor>; d = y - rat_of_int f
      in if d < 1 / 2 then f else if 1 / 2 < d then f + 1 else if even f then f else f + 1)"

definition fl :: "rat \<Rightarrow> rat" where
  "fl x =
     (if x = 0 then 0
      else let u = 2 powi (max (expo \<bar>x\<bar>) (- 1022) - 52)
           in u * rat_of_int (rne (x / u)))"

definition of_fl :: "rat \<Rightarrow> jsnum" where
  "of_fl x =
     (let y = fl x
      in if y \<noteq> 0 \<and> 1024 \<le> expo \<bar>y\<bar> then inf_of_sign (sgn y) else Fin y)"

text \<open>
  The rounded operations: the exact result, rounded, on two finite numbers, and what
  the exact operation gives on the special values.
\<close>

fun js_add_r :: "jsnum \<Rightarrow> jsnum \<Rightarrow> jsnum" where
  "js_add_r (Fin a) (Fin b) = of_fl (a + b)"
| "js_add_r x y = js_add x y"

fun js_mul_r :: "jsnum \<Rightarrow> jsnum \<Rightarrow> jsnum" where
  "js_mul_r (Fin a) (Fin b) = of_fl (a * b)"
| "js_mul_r x y = js_mul x y"

fun js_div_r :: "jsnum \<Rightarrow> jsnum \<Rightarrow> jsnum" where
  "js_div_r (Fin a) (Fin b) = (if b = 0 then inf_of_sign (sgn a) else of_fl (a / b))"
| "js_div_r x y = js_div x y"

section \<open>Load profiles\<close>

text \<open>
  The \<open>getUsers\<close> functions of the five entries of \<open>testProfiles\<close>, each with the four
  parameters \<open>t\<close>, \<open>duration\<close>, \<open>max\<close> and \<open>rampUp\<close> of the interface.
\<close>

datatype TestProfile = Fixed | Rampup | Spike | Stress | Custom

definition getUsers_fixed :: "jsnum \<Rightarrow> jsnum \<Rightarrow> jsnum \<Rightarrow> jsnum \<Rightarrow> jsnum" where
  "getUsers_fixed t d mx rampUp = mx"

definition getUsers_rampup :: "jsnum \<Rightarrow> jsnum \<Rightarrow> jsnum \<Rightarrow> jsnum \<Rightarrow> jsnum" where
  "getUsers_rampup t d mx rampUp =
     (if js_le rampUp (Fin 0) then mx
      else js_max (Fin 1)
             (js_floor (js_mul_r mx (js_min (Fin 1) (js_div_r (js_add_r t (Fin 1)) rampUp)))))"

definition getUsers_spike :: "jsnum \<Rightarrow> jsnum \<Rightarrow> jsnum \<Rightarrow> jsnum \<Rightarrow> jsnum" where
  "getUsers_spike t duration mx rampUp =
     (let mid = js_floor (js_div duration (Fin 2));
          spikeWindow = js_max (Fin 3) (js_floor (js_mul duration (Fin (2 / 10))))
      in if js_ge t (js_sub mid (Fin 1)) \<and> js_lt t (js_add (js_sub mid (Fin 1)) spikeWindow)
         then mx
         else js_max (Fin 1) (js_floor (js_mul mx (Fin (1 / 10)))))"

definition getUsers_stress :: "jsnum \<Rightarrow> jsnum \<Rightarrow> jsnum \<Rightarrow> jsnum \<Rightarrow> jsnum" where
  "getUsers_stress t duration mx rampUp =
     (let stages = Fin 4;
          stageLen = js_floor (js_div duration stages);
          stage = js_min (js_sub stages (Fin 1)) (js_floor (js_div t stageLen))
      in js_max (Fin 1) (js_floor (js_mul mx (js_div (js_add stage (Fin 1)) stages))))"

definition getUsers_custom :: "jsnum \<Rightarrow> jsnum \<Rightarrow> jsnum \<Rightarrow> jsnum \<Rightarrow> jsnum" where
  "getUsers_custom t d mx rampUp =
     (if js_le rampUp (Fin 0) then mx
      else js_max (Fin 1)
             (js_floor (js_mul_r mx (js_min (Fin 1) (js_div_r (js_add_r t (Fin 1)) rampUp)))))"

fun getUsers :: "TestProfile \<Rightarrow> jsnum \<Rightarrow> jsnum \<Rightarrow> jsnum \<Rightarrow> jsnum \<Rightarrow> jsnum" where
  "getUsers Fixed = getUsers_fixed"
| "getUsers Rampup = getUsers_rampup"
| "getUsers Spike = getUsers_spike"
| "getUsers Stress = getUsers_stress"
| "getUsers Custom = getUsers_custom"


subsection \<open>The formulas of the specification\<close>

text \<open>
  The specification gives a formula for three of the profiles, in the arithmetic of the
  integers and rationals. They are written here as the specification words them, to be
  compared with the functions above.
\<close>

definition rampup_spec :: "int \<Rightarrow> int \<Rightarrow> int \<Rightarrow> int" where
  "rampup_spec t maxUsers rampUp =
     max 1 \<lfloor>rat_of_int maxUsers * min 1 (rat_of_int (t + 1) / rat_of_int rampUp)\<rfloor>"



section \<open>Building the request\<close>

text \<open>
  \<open>buildFetchOptions\<close> fills a fresh object \<open>h\<close> with the headers and stores a reference
  to it in \<open>opts.headers\<close>; a later write to \<open>h\<close> is seen through that reference, and
  only through it. The model keeps the objects in a store, and \<open>opts.headers\<close> holds an
  address or is undefined.
\<close>

datatype HttpMethod = GET | POST | PUT | PATCH | DELETE | OPTIONS | HEAD

record KeyValuePair =
  key :: string
  value' :: string
  enabled :: bool
  id' :: string

type_synonym obj = "(string \<times> string) list"
type_synonym ref = nat
type_synonym store = "ref \<Rightarrow> obj"

text \<open>
  An object is the list of its own properties in the order in which \<open>Object.keys\<close> and
  \<open>fetch\<close> enumerate them: first the keys that are array indices (the decimal numerals
  of \<open>0\<close> to \<open>2^32 - 2\<close>) in ascending order, then the other keys in insertion order.
  \<open>obj_set k v\<close> is the assignment \<open>h[k] = v\<close> of a string \<open>v\<close>: it overwrites an
  existing property in place and adds a new one at its position; on the key
  \<open>__proto__\<close> it is the inherited setter, which ignores a string and adds nothing.
\<close>

definition dec_value :: "string \<Rightarrow> int" where
  "dec_value s = foldl (\<lambda>n c. 10 * n + (of_char c - 48)) 0 s"

definition array_index :: "string \<Rightarrow> int option" where
  "array_index s =
     (if s \<noteq> [] \<and> list_all (\<lambda>c. 48 \<le> (of_char c :: int) \<and> (of_char c :: int) \<le> 57) s
         \<and> (if hd s = CHR ''0'' then s = ''0'' else True) \<and> dec_value s < 2 ^ 32 - 1
      then Some (dec_value s) else None)"

fun insert_index :: "int \<Rightarrow> string \<times> string \<Rightarrow> obj \<Rightarrow> obj" where
  "insert_index n kv [] = [kv]"
| "insert_index n kv (p # ps) =
     (case array_index (fst p) of
        Some m \<Rightarrow> if m < n then p # insert_index n kv ps else kv # p # ps
      | None \<Rightarrow> kv # p # ps)"

definition obj_set :: "string \<Rightarrow> string \<Rightarrow> obj \<Rightarrow> obj" where
  "obj_set k v o' =
     (if k = ''__proto__'' then o'
      else if map_of o' k \<noteq> None then AList.update k v o'
      else case array_index k of
             None \<Rightarrow> AList.update k v o'
           | Some n \<Rightarrow> insert_index n (k, v) o')"

datatype BodyInit = BodyString string | BodyFormData "(string \<times> string) list"

record RequestInit =
  method' :: HttpMethod
  mode :: string
  headers :: "ref option"
  body :: "BodyInit option"

datatype error = InvalidCharacterError

text \<open>
  \<open>btoa\<close> is the browser's function; it throws \<open>InvalidCharacterError\<close> on a string
  with a character above U+00FF. It is a parameter of the model, \<open>None\<close> being the throw.
  The second step is the chain of \<open>if\<close>/\<open>else if\<close> on \<open>authType\<close>; a string is truthy
  when it is not empty.
\<close>

definition set_headers :: "ref \<Rightarrow> KeyValuePair list \<Rightarrow> store \<Rightarrow> store" where
  "set_headers h hs st =
     foldl (\<lambda>st p. st(h := obj_set (key p) (value' p) (st h))) st
       (filter (\<lambda>p. enabled p \<and> key p \<noteq> []) hs)"

definition set_auth ::
  "(string \<Rightarrow> string option) \<Rightarrow> ref \<Rightarrow> string \<Rightarrow> string \<Rightarrow> store \<Rightarrow> error + store" where
  "set_auth btoa h authType authToken st =
     (if authType = ''bearer'' \<and> authToken \<noteq> []
      then Inr (st(h := obj_set ''Authorization'' (''Bearer '' @ authToken) (st h)))
      else if authType = ''basic'' \<and> authToken \<noteq> []
      then (case btoa authToken of
              None \<Rightarrow> Inl InvalidCharacterError
            | Some b \<Rightarrow> Inr (st(h := obj_set ''Authorization'' (''Basic '' @ b) (st h))))
      else if authType = ''apikey'' \<and> authToken \<noteq> []
      then Inr (st(h := obj_set ''X-API-Key'' authToken (st h)))
      else Inr st)"

text \<open>\<open>h["Content-Type"] || "application/json"\<close>: a missing or empty value gives the default.\<close>

definition content_type_or_default :: "obj \<Rightarrow> string" where
  "content_type_or_default o' =
     (case map_of o' ''Content-Type'' of
        None \<Rightarrow> ''application/json''
      | Some v \<Rightarrow> if v \<noteq> [] then v else ''application/json'')"

definition set_body ::
  "ref \<Rightarrow> string \<Rightarrow> string \<Rightarrow> RequestInit \<times> store \<Rightarrow> RequestInit \<times> store" where
  "set_body h bodyType bodyContent os =
     (let opts = fst os; st = snd os
      in if method' opts \<noteq> GET \<and> method' opts \<noteq> HEAD
         then if bodyType = ''json'' \<and> bodyContent \<noteq> []
              then (opts\<lparr>body := Some (BodyString bodyContent)\<rparr>,
                    st(h := obj_set ''Content-Type'' (content_type_or_default (st h)) (st h)))
              else if bodyType = ''raw'' \<and> bodyContent \<noteq> []
              then (opts\<lparr>body := Some (BodyString bodyContent)\<rparr>, st)
              else if bodyType = ''formdata''
              then (opts\<lparr>body := Some (BodyFormData [])\<rparr>, st)
              else (opts, st)
         else (opts, st))"

definition buildFetchOptions ::
  "(string \<Rightarrow> string option) \<Rightarrow> HttpMethod \<Rightarrow> KeyValuePair list \<Rightarrow> string \<Rightarrow> string \<Rightarrow>
   string \<Rightarrow> string \<Rightarrow> error + RequestInit \<times> store" where
  "buildFetchOptions btoa meth hs authType authToken bodyType bodyContent =
     (let opts = \<lparr>method' = meth, mode = ''no-cors'', headers = None, body = None\<rparr>;
          h = 0;
          st = set_headers h hs (\<lambda>_. [])
      in case set_auth btoa h authType authToken st of
           Inl e \<Rightarrow> Inl e
         | Inr st \<Rightarrow>
             Inr (set_body h bodyType bodyContent
               (if length (map fst (st h)) \<noteq> 0 then opts\<lparr>headers := Some h\<rparr> else opts, st)))"


text \<open>
  What \<open>fetch\<close> reads when it is called with the returned \<open>opts\<close>: the object behind
  \<open>opts.headers\<close>, or no header at all when \<open>opts.headers\<close> is undefined.
\<close>

definition sent_headers :: "RequestInit \<times> store \<Rightarrow> obj" where
  "sent_headers os = (case headers (fst os) of None \<Rightarrow> [] | Some r \<Rightarrow> snd os r)"

section \<open>The run\<close>

text \<open>
  \<open>runTest\<close> talks to the network and to the clock. Both are the environment of the
  model: for the promise with index \<open>i\<close> of tick \<open>t\<close>, \<open>fetch_outcome\<close> says whether
  \<open>fetch\<close> resolved, and then the measured \<open>Date.now() - rs\<close> (a whole number of
  milliseconds), or threw; \<open>cancelRef_at t\<close> is the value of \<open>cancelRef.current\<close>
  read at the top of tick \<open>t\<close>. The counters and the latencies are integers.
\<close>

datatype fetch_outcome = Resolved int | Rejected

record env =
  fetch_outcome :: "nat \<Rightarrow> nat \<Rightarrow> fetch_outcome"
  cancelRef_at :: "nat \<Rightarrow> bool"

record config =
  testProfile :: TestProfile
  duration :: int
  concurrentUsers :: int
  rampUp :: int

record MetricPoint =
  time :: int
  avgResponseTime_tick :: jsnum
  p95_tick :: jsnum
  p99_tick :: jsnum
  rps_tick :: jsnum
  errorRate :: jsnum
  activeUsers :: jsnum

record TestSummary =
  totalRequests :: int
  successCount :: int
  errorCount :: int
  avgResponseTime :: jsnum
  minResponseTime :: jsnum
  maxResponseTime :: jsnum
  p95 :: "jsnum option"
  p99 :: "jsnum option"
  rps :: jsnum

record run_state =
  allTimes :: "int list"
  totalReqs :: int
  errors :: int
  metrics :: "MetricPoint list"

text \<open>
  Reading \<open>xs[i]\<close> for a number \<open>i\<close>: the element when \<open>i\<close> is an index of the array,
  and \<open>undefined\<close> (\<open>None\<close>) otherwise. \<open>Math.round(undefined)\<close> is NaN, and
  \<open>x ?? 0\<close> replaces \<open>undefined\<close> by 0.
\<close>

fun js_index :: "int list \<Rightarrow> jsnum \<Rightarrow> jsnum option" where
  "js_index xs (Fin a) =
     (if rat_of_int \<lfloor>a\<rfloor> = a \<and> 0 \<le> a \<and> nat \<lfloor>a\<rfloor> < length xs
      then Some (jsint (xs ! nat \<lfloor>a\<rfloor>)) else None)"
| "js_index xs _ = None"

fun js_round_u :: "jsnum option \<Rightarrow> jsnum" where
  "js_round_u None = NaN"
| "js_round_u (Some x) = js_round x"

fun nullish_or :: "jsnum option \<Rightarrow> jsnum \<Rightarrow> jsnum" where
  "nullish_or None d = d"
| "nullish_or (Some x) d = x"

text \<open>
  \<open>Array.from({ length: n }, ...)\<close> makes \<open>ToLength(n)\<close> elements: none for NaN and for
  a negative \<open>n\<close>, the integer part of \<open>n\<close> otherwise, at most \<open>2^53 - 1\<close>.
\<close>

fun to_length :: "jsnum \<Rightarrow> nat" where
  "to_length (Fin a) = nat (min (2 ^ 53 - 1) \<lfloor>a\<rfloor>)"
| "to_length PosInf = nat (2 ^ 53 - 1)"
| "to_length _ = 0"

text \<open>
  The body of one promise: a resolved \<open>fetch\<close> pushes its latency on \<open>allTimes\<close> and
  returns it, a rejected one counts an error and returns \<open>-1\<close>; both count a request.
  \<open>promise_all\<close> runs the promises of a tick in index order and collects what they
  return. In the browser the continuations run one at a time in completion order, which
  changes only the order of \<open>allTimes\<close>, and \<open>allTimes\<close> is read only after sorting.
\<close>

fun promise_body :: "fetch_outcome \<Rightarrow> run_state \<Rightarrow> int \<times> run_state" where
  "promise_body (Resolved dur) s =
     (dur, s\<lparr>allTimes := allTimes s @ [dur], totalReqs := totalReqs s + 1\<rparr>)"
| "promise_body Rejected s =
     (- 1, s\<lparr>errors := errors s + 1, totalReqs := totalReqs s + 1\<rparr>)"

fun promise_all :: "fetch_outcome list \<Rightarrow> run_state \<Rightarrow> int list \<times> run_state" where
  "promise_all [] s = ([], s)"
| "promise_all (x # xs) s =
     (case promise_body x s of
        (r, s') \<Rightarrow> (case promise_all xs s' of (rs, s'') \<Rightarrow> (r # rs, s'')))"

text \<open>The statistics of one tick, from the \<open>results\<close> of its promises.\<close>

definition tick_avg :: "int list \<Rightarrow> jsnum" where
  "tick_avg results =
     (let valid = filter (\<lambda>r. 0 < r) results
      in if length valid \<noteq> 0
         then js_div (jsint (foldl (\<lambda>a b. a + b) 0 valid)) (jsint (int (length valid)))
         else Fin 0)"

definition tick_p95 :: "int list \<Rightarrow> jsnum option" where
  "tick_p95 results =
     (let valid = filter (\<lambda>r. 0 < r) results;
          sorted' = sort valid
      in if length sorted' \<noteq> 0
         then js_index sorted'
                (js_floor (js_mul (jsint (int (length sorted'))) (Fin (95 / 100))))
         else Some (Fin 0))"

definition tick_p99 :: "int list \<Rightarrow> jsnum option" where
  "tick_p99 results =
     (let valid = filter (\<lambda>r. 0 < r) results;
          sorted' = sort valid
      in if length sorted' \<noteq> 0
         then js_index sorted'
                (js_floor (js_mul (jsint (int (length sorted'))) (Fin (99 / 100))))
         else Some (Fin 0))"

text \<open>The point pushed on \<open>metrics\<close> at the end of tick \<open>t\<close>.\<close>

definition tick_point :: "nat \<Rightarrow> jsnum \<Rightarrow> int list \<Rightarrow> run_state \<Rightarrow> MetricPoint" where
  "tick_point t users results s =
     \<lparr>time = int t + 1,
      avgResponseTime_tick = js_round (tick_avg results),
      p95_tick = js_round_u (tick_p95 results),
      p99_tick = js_round_u (tick_p99 results),
      rps_tick =
        js_div_r
          (js_round (js_mul_r (js_div_r (jsint (totalReqs s)) (jsint (int t + 1))) (Fin 100)))
          (Fin 100),
      errorRate =
        (if 0 < totalReqs s
         then js_div_r
                (js_round
                  (js_mul_r (js_div_r (jsint (errors s)) (jsint (totalReqs s))) (Fin 10000)))
                (Fin 100)
         else Fin 0),
      activeUsers = users\<rparr>"

definition tick :: "env \<Rightarrow> config \<Rightarrow> nat \<Rightarrow> run_state \<Rightarrow> run_state" where
  "tick e c t s =
     (let users = getUsers (testProfile c) (jsint (int t)) (jsint (duration c))
                    (jsint (concurrentUsers c)) (jsint (rampUp c))
      in case promise_all (map (fetch_outcome e t) [0..<to_length users]) s of
           (results, s') \<Rightarrow> s'\<lparr>metrics := metrics s' @ [tick_point t users results s']\<rparr>)"

text \<open>
  The loop \<open>for (let t = 0; t < duration; t++)\<close> with its \<open>break\<close> on cancellation.
  The waiting at the end of a tick changes no variable of the run.
\<close>

function run_loop :: "env \<Rightarrow> config \<Rightarrow> nat \<Rightarrow> run_state \<Rightarrow> run_state" where
  "run_loop e c t s =
     (if int t < duration c
      then if cancelRef_at e t then s else run_loop e c (Suc t) (tick e c t s)
      else s)"
  by pat_completeness auto
termination
  by (relation "measure (\<lambda>(e, c, t, s). nat (duration c) - t)") auto

text \<open>The summary set after the loop, and the whole run.\<close>

definition summarize :: "config \<Rightarrow> run_state \<Rightarrow> TestSummary" where
  "summarize c s =
     (let sortedAll = sort (allTimes s)
      in \<lparr>totalRequests = totalReqs s,
          successCount = totalReqs s - errors s,
          errorCount = errors s,
          avgResponseTime =
            (if length sortedAll \<noteq> 0
             then js_round (js_div (jsint (foldl (\<lambda>a b. a + b) 0 sortedAll))
                                   (jsint (int (length sortedAll))))
             else Fin 0),
          minResponseTime = nullish_or (js_index sortedAll (Fin 0)) (Fin 0),
          maxResponseTime =
            nullish_or (js_index sortedAll (js_sub (jsint (int (length sortedAll))) (Fin 1)))
              (Fin 0),
          p95 =
            (if length sortedAll \<noteq> 0
             then js_index sortedAll
                    (js_floor (js_mul (jsint (int (length sortedAll))) (Fin (95 / 100))))
             else Some (Fin 0)),
          p99 =
            (if length sortedAll \<noteq> 0
             then js_index sortedAll
                    (js_floor (js_mul (jsint (int (length sortedAll))) (Fin (99 / 100))))
             else Some (Fin 0)),
          rps =
            (if 0 < duration c
             then js_div_r
                    (js_round
                      (js_mul_r (js_div_r (jsint (totalReqs s)) (jsint (duration c))) (Fin 100)))
                    (Fin 100)
             else Fin 0)\<rparr>)"

definition runTest :: "env \<Rightarrow> config \<Rightarrow> MetricPoint list \<times> TestSummary" where
  "runTest e c =
     (let s = run_loop e c 0 \<lparr>allTimes = [], totalReqs = 0, errors = 0, metrics = []\<rparr>
      in (metrics s, summarize c s))"

text \<open>
  A small run for the examples: three users, the first request of a tick always fails,
  and the run is cancelled at the top of the third tick.
\<close>

definition example_env :: env where
  "example_env =
     \<lparr>fetch_outcome = (\<lambda>t i. if i = 0 then Rejected else Resolved (int (10 * t + i))),
      cancelRef_at = (\<lambda>t. t = 2)\<rparr>"

definition example_config :: config where
  "example_config = \<lparr>testProfile = Fixed, duration = 3, concurrentUsers = 3, rampUp = 0\<rparr>"

section \<open>Arithmetic on finite numbers\<close>

lemma js_sub_Fin [simp]: "js_sub (Fin a) (Fin b) = Fin (a - b)"
  by (simp add: js_sub_def)

lemma js_max_Fin [simp]: "js_max (Fin a) (Fin b) = Fin (max a b)"
  by (simp add: max_def)

lemma js_min_Fin [simp]: "js_min (Fin a) (Fin b) = Fin (min a b)"
  by (simp add: min_def)


lemma js_gt_Fin [simp]: "js_gt (Fin a) (Fin b) = (b < a)"
  by (simp add: js_gt_def)

lemma max_one_of_int: "max (1::rat) (rat_of_int k) = rat_of_int (max 1 k)"
  by (simp add: max_def)


section \<open>Rounding\<close>

lemma rne_of_int [simp]: "rne (rat_of_int k) = k"
  by (simp add: rne_def)

lemma rne_ge: "rat_of_int N \<le> y \<Longrightarrow> N \<le> rne y"
proof -
  assume "rat_of_int N \<le> y"
  then have "N \<le> \<lfloor>y\<rfloor>" by (simp add: le_floor_iff)
  moreover have "\<lfloor>y\<rfloor> \<le> rne y" by (simp add: rne_def Let_def)
  ultimately show ?thesis by simp
qed

lemma rne_le: "y \<le> rat_of_int N \<Longrightarrow> rne y \<le> N"
proof (cases "y = rat_of_int \<lfloor>y\<rfloor>")
  case True
  assume "y \<le> rat_of_int N"
  then have "\<lfloor>y\<rfloor> \<le> N" using True by (metis of_int_le_iff)
  moreover have "rne y = \<lfloor>y\<rfloor>" using True by (metis rne_of_int)
  ultimately show ?thesis by simp
next
  case False
  assume "y \<le> rat_of_int N"
  then have "\<lfloor>y\<rfloor> \<le> N" by (metis floor_mono floor_of_int)
  moreover have "\<lfloor>y\<rfloor> \<noteq> N" using False \<open>y \<le> rat_of_int N\<close> by (metis of_int_floor_le order_antisym)
  ultimately have "\<lfloor>y\<rfloor> + 1 \<le> N" by simp
  moreover have "rne y \<le> \<lfloor>y\<rfloor> + 1" by (simp add: rne_def Let_def)
  ultimately show ?thesis by simp
qed

lemma rne_error: "\<bar>rat_of_int (rne y) - y\<bar> \<le> 1 / 2"
proof -
  have "rat_of_int \<lfloor>y\<rfloor> \<le> y" "y < rat_of_int \<lfloor>y\<rfloor> + 1" by linarith+
  then show ?thesis
    by (auto simp: rne_def Let_def abs_le_iff)
qed

lemma expo_bounds:
  "0 < x \<Longrightarrow> 2 powi (expo x) \<le> x \<and> x < 2 powi (expo x + 1)"
proof (induction x rule: expo.induct)
  case (1 x)
  consider "x < 1" | "2 \<le> x" | "1 \<le> x" "x < 2" by linarith
  then show ?case
  proof cases
    case 1
    with "1.prems" "1.IH"(1) have ih: "2 powi (expo (2 * x)) \<le> 2 * x" "2 * x < 2 powi (expo (2 * x) + 1)"
      by simp_all
    have e: "expo x = expo (2 * x) - 1" using 1 "1.prems" by (subst expo.simps) simp
    have "(2::rat) powi (expo (2 * x) - 1) = 2 powi (expo (2 * x)) / 2"
      by (simp add: power_int_diff)
    moreover have "(2::rat) powi (expo (2 * x) + 1) = 2 powi (expo (2 * x)) * 2"
      by (simp add: power_int_add)
    ultimately show ?thesis using ih unfolding e by simp
  next
    case 2
    with "1.prems" "1.IH"(2) have ih: "2 powi (expo (x / 2)) \<le> x / 2" "x / 2 < 2 powi (expo (x / 2) + 1)"
      by simp_all
    have e: "expo x = expo (x / 2) + 1" using 2 "1.prems" by (subst expo.simps) simp
    have "(2::rat) powi (expo (x / 2) + 1) = 2 powi (expo (x / 2)) * 2"
      by (simp add: power_int_add)
    moreover have "(2::rat) powi (expo (x / 2) + 1 + 1) = 2 powi (expo (x / 2) + 1) * 2"
      by (simp add: power_int_add)
    ultimately show ?thesis using ih unfolding e by simp
  next
    case 3
    then have "expo x = 0" by (subst expo.simps) simp
    then show ?thesis using 3 by simp
  qed
qed

lemma expo_ge:
  assumes "0 < x" and "2 powi n \<le> x"
  shows "n \<le> expo x"
proof (rule ccontr)
  assume "\<not> n \<le> expo x"
  then have "expo x + 1 \<le> n" by simp
  then have "(2::rat) powi (expo x + 1) \<le> 2 powi n"
    by (intro power_int_increasing) simp_all
  with expo_bounds [OF assms(1)] assms(2) show False by simp
qed

lemma expo_le:
  assumes "0 < x" and "x \<le> 2 powi n"
  shows "expo x \<le> n"
proof (rule ccontr)
  assume "\<not> expo x \<le> n"
  then have "n < expo x" by simp
  then have "(2::rat) powi n < 2 powi (expo x)"
    by (intro power_int_strict_increasing) simp_all
  with expo_bounds [OF assms(1)] assms(2) show False by simp
qed


lemma fl_nonneg: "0 \<le> x \<Longrightarrow> 0 \<le> fl x"
proof -
  assume x: "0 \<le> x"
  have "0 \<le> rne (x / 2 powi n)" for n
    using x by (intro rne_ge) simp
  then show ?thesis
    by (simp add: fl_def Let_def)
qed

lemma powi_as_int:
  assumes "0 \<le> n"
  shows "(2::rat) powi n = rat_of_int (2 ^ nat n)"
  using assms by (simp add: power_int_def)

lemma fl_unit:
  assumes "x \<noteq> 0"
  shows "fl x = 2 powi (max (expo \<bar>x\<bar>) (- 1022) - 52)
           * rat_of_int (rne (x / 2 powi (max (expo \<bar>x\<bar>) (- 1022) - 52)))"
  using assms by (simp add: fl_def Let_def)

lemma fl_exact:
  assumes "x \<noteq> 0" and "x / 2 powi (max (expo \<bar>x\<bar>) (- 1022) - 52) = rat_of_int m"
  shows "fl x = x"
proof -
  let ?u = "(2::rat) powi (max (expo \<bar>x\<bar>) (- 1022) - 52)"
  have "fl x = ?u * rat_of_int m"
    unfolding fl_unit [OF assms(1)] assms(2) by simp
  also have "\<dots> = ?u * (x / ?u)" by (simp only: assms(2))
  also have "\<dots> = x" by simp
  finally show ?thesis .
qed

lemma fl_of_int:
  assumes "\<bar>k\<bar> \<le> 2 ^ 53"
  shows "fl (rat_of_int k) = rat_of_int k"
proof (cases "k = 0")
  case True
  then show ?thesis by (simp add: fl_def)
next
  case False
  let ?x = "rat_of_int k"
  let ?e = "expo \<bar>?x\<bar>"
  have pos: "0 < \<bar>?x\<bar>" using False by simp
  have "1 \<le> \<bar>k\<bar>" using False by simp
  then have "1 \<le> \<bar>?x\<bar>" by (metis of_int_1_le_iff of_int_abs)
  then have e0: "0 \<le> ?e" using expo_ge [OF pos, of 0] by simp
  have "rat_of_int \<bar>k\<bar> \<le> rat_of_int (2 ^ 53)"
    using assms by (simp only: of_int_le_iff)
  then have le: "\<bar>?x\<bar> \<le> 2 powi 53" by simp
  then have e53: "?e \<le> 53" by (rule expo_le [OF pos])
  have m: "max ?e (- 1022) = ?e" using e0 by simp
  show ?thesis
  proof (cases "?e \<le> 52")
    case True
    have "(2::rat) powi (?e - 52) = 1 / 2 powi (52 - ?e)"
      using power_int_minus_divide [of "2::rat" "52 - ?e"] by simp
    also have "\<dots> = 1 / rat_of_int (2 ^ nat (52 - ?e))"
      using True by (simp add: powi_as_int)
    finally have "?x / 2 powi (max ?e (- 1022) - 52) = rat_of_int (k * 2 ^ nat (52 - ?e))"
      unfolding m by simp
    moreover have "?x \<noteq> 0" using False by simp
    ultimately show ?thesis by (intro fl_exact)
  next
    case False
    then have e: "?e = 53" using e53 by simp
    have "2 powi ?e \<le> \<bar>?x\<bar>" using expo_bounds [OF pos] by simp
    then have "\<bar>?x\<bar> = 2 ^ 53" using le e by simp
    then have "\<bar>k\<bar> = 2 ^ 53" by (metis of_int_abs of_int_eq_iff of_int_numeral of_int_power)
    then have "k = 2 ^ 53 \<or> k = - (2 ^ 53)" by linarith
    then have "?x / 2 powi (max ?e (- 1022) - 52) = rat_of_int (k div 2)"
      unfolding m e by auto
    moreover have "?x \<noteq> 0" using \<open>k \<noteq> 0\<close> by simp
    ultimately show ?thesis by (intro fl_exact)
  qed
qed

lemma fl_le_int:
  assumes "0 \<le> x" and "x \<le> rat_of_int K" and "K \<le> 2 ^ 53"
  shows "fl x \<le> rat_of_int K"
proof (cases "x = 0")
  case True
  then show ?thesis using assms by (simp add: fl_def)
next
  case False
  then have pos: "0 < x" using assms(1) by simp
  let ?E = "max (expo \<bar>x\<bar>) (- 1022)"
  let ?u = "(2::rat) powi (?E - 52)"
  have ax: "\<bar>x\<bar> = x" using pos by simp
  have "rat_of_int K \<le> rat_of_int (2 ^ 53)"
    using assms(3) by (simp only: of_int_le_iff)
  then have le: "x \<le> 2 powi 53" using assms(2) by simp
  then have e53: "expo x \<le> 53" by (rule expo_le [OF pos])
  then have E53: "?E \<le> 53" unfolding ax by simp
  have upos: "0 < ?u" by simp
  show ?thesis
  proof (cases "?E \<le> 52")
    case True
    have "(2::rat) powi (?E - 52) = 1 / 2 powi (52 - ?E)"
      using power_int_minus_divide [of "2::rat" "52 - ?E"] by simp
    also have "\<dots> = 1 / rat_of_int (2 ^ nat (52 - ?E))"
      using True by (simp add: powi_as_int)
    finally have K: "rat_of_int K / ?u = rat_of_int (K * 2 ^ nat (52 - ?E))"
      by simp
    have "x / ?u \<le> rat_of_int K / ?u"
      using assms(2) upos by (simp add: divide_right_mono)
    then have "rne (x / ?u) \<le> K * 2 ^ nat (52 - ?E)"
      unfolding K by (rule rne_le)
    then have "rat_of_int (rne (x / ?u)) \<le> rat_of_int K / ?u"
      unfolding K by (simp only: of_int_le_iff)
    then have "?u * rat_of_int (rne (x / ?u)) \<le> rat_of_int K"
      using upos by (simp add: pos_le_divide_eq mult.commute)
    then show ?thesis unfolding fl_unit [OF False] .
  next
    case False
    then have "expo x = 53" using E53 e53 unfolding ax by simp
    then have "2 powi 53 \<le> x" using expo_bounds [OF pos] by simp
    then have "x = rat_of_int (2 ^ 53)" and "rat_of_int K = rat_of_int (2 ^ 53)"
      using le assms(2) \<open>rat_of_int K \<le> rat_of_int (2 ^ 53)\<close> by simp_all
    then show ?thesis using fl_of_int [of "2 ^ 53"] by simp
  qed
qed

lemma fl_ge_one:
  assumes "1 \<le> x"
  shows "1 \<le> fl x"
proof -
  have pos: "0 < x" and nz: "x \<noteq> 0" and ax: "\<bar>x\<bar> = x" using assms by simp_all
  have e0: "0 \<le> expo x" using expo_ge [OF pos, of 0] assms by simp
  then have m: "max (expo \<bar>x\<bar>) (- 1022) = expo x" unfolding ax by simp
  let ?u = "(2::rat) powi (expo x - 52)"
  have upos: "0 < ?u" by simp
  have "2 powi (expo x) \<le> x" using expo_bounds [OF pos] by simp
  then have "2 powi (expo x) / ?u \<le> x / ?u"
    using upos by (simp add: divide_right_mono)
  moreover have "(2::rat) powi (expo x) / ?u = 2 powi 52"
    using power_int_diff [of "2::rat" "expo x" "expo x - 52"] by simp
  ultimately have "rat_of_int (2 ^ 52) \<le> x / ?u" by simp
  then have "2 ^ 52 \<le> rne (x / ?u)" by (rule rne_ge)
  then have "rat_of_int (2 ^ 52) \<le> rat_of_int (rne (x / ?u))"
    by (simp only: of_int_le_iff)
  then have step: "?u * rat_of_int (2 ^ 52) \<le> ?u * rat_of_int (rne (x / ?u))"
    using upos by (intro mult_left_mono) simp_all
  have "(1::rat) \<le> 2 powi (expo x)"
    using e0 by simp
  also have "(2::rat) powi (expo x) = ?u * rat_of_int (2 ^ 52)"
    using power_int_add [of "2::rat" "expo x - 52" 52] by simp
  also note step
  finally show ?thesis
    unfolding fl_unit [OF nz] m .
qed

lemma fl_error:
  assumes "2 powi (- 1022) \<le> x"
  shows "\<bar>fl x - x\<bar> \<le> x / 2 ^ 53"
proof -
  have "(0::rat) < 2 powi (- 1022)" by simp
  then have pos: "0 < x" and nz: "x \<noteq> 0" and ax: "\<bar>x\<bar> = x" using assms by simp_all
  have "- 1022 \<le> expo x" using assms by (rule expo_ge [OF pos])
  then have m: "max (expo \<bar>x\<bar>) (- 1022) = expo x" unfolding ax by simp
  let ?u = "(2::rat) powi (expo x - 52)"
  have upos: "0 < ?u" by simp
  have "fl x - x = ?u * (rat_of_int (rne (x / ?u)) - x / ?u)"
    unfolding fl_unit [OF nz] m by (simp add: algebra_simps)
  then have "\<bar>fl x - x\<bar> = ?u * \<bar>rat_of_int (rne (x / ?u)) - x / ?u\<bar>"
    using upos by (simp add: abs_mult)
  also have "\<dots> \<le> ?u * (1 / 2)"
    using upos rne_error [of "x / ?u"] by (intro mult_left_mono) simp_all
  also have "?u * (1 / 2) = 2 powi (expo x) / 2 ^ 53"
    using power_int_diff [of "2::rat" "expo x" 53] power_int_diff [of "2::rat" "expo x - 52" 1]
    by simp
  also have "\<dots> \<le> x / 2 ^ 53"
    using expo_bounds [OF pos] by (simp add: divide_right_mono)
  finally show ?thesis .
qed

lemma expo_lt:
  assumes "0 < x" and "x < 2 powi n"
  shows "expo x < n"
proof (rule ccontr)
  assume "\<not> expo x < n"
  then have "n \<le> expo x" by simp
  then have "(2::rat) powi n \<le> 2 powi (expo x)"
    by (intro power_int_increasing) simp_all
  with expo_bounds [OF assms(1)] assms(2) show False by simp
qed

lemma expo_unique:
  assumes "2 powi e \<le> x" and "x < 2 powi (e + 1)"
  shows "expo x = e"
proof -
  have pos: "0 < x"
    using assms(1) zero_less_power_int [of "2::rat" e] by linarith
  from expo_ge [OF pos assms(1)] expo_lt [OF pos assms(2)] show ?thesis by simp
qed

lemma rne_eval:
  assumes "rat_of_int m - 1 / 2 < y" and "y < rat_of_int m + 1 / 2"
  shows "rne y = m"
proof (cases "rat_of_int m \<le> y")
  case True
  then have "\<lfloor>y\<rfloor> = m" using assms(2) by (simp add: floor_eq_iff)
  then show ?thesis using assms(2) by (simp add: rne_def Let_def)
next
  case False
  then have "\<lfloor>y\<rfloor> = m - 1" using assms(1) by (simp add: floor_eq_iff)
  then show ?thesis using assms(1) by (simp add: rne_def Let_def)
qed

lemma fl_eval:
  assumes "2 powi e \<le> x" and "x < 2 powi (e + 1)" and "- 1022 \<le> e"
    and "rat_of_int m - 1 / 2 < x / 2 powi (e - 52)"
    and "x / 2 powi (e - 52) < rat_of_int m + 1 / 2"
  shows "fl x = 2 powi (e - 52) * rat_of_int m"
proof -
  have pos: "0 < x"
    using assms(1) zero_less_power_int [of "2::rat" e] by linarith
  then have nz: "x \<noteq> 0" and ax: "\<bar>x\<bar> = x" by simp_all
  have E: "max (expo \<bar>x\<bar>) (- 1022) = e"
    unfolding ax expo_unique [OF assms(1,2)] using assms(3) by simp
  show ?thesis
    unfolding fl_unit [OF nz] E rne_eval [OF assms(4,5)] ..
qed

lemma of_fl_small:
  assumes "0 \<le> x" and "x \<le> rat_of_int K" and "K \<le> 2 ^ 53"
  shows "of_fl x = Fin (fl x)"
proof (cases "fl x = 0")
  case True
  then show ?thesis by (simp add: of_fl_def)
next
  case False
  then have pos: "0 < \<bar>fl x\<bar>" by simp
  have "fl x \<le> rat_of_int K" using assms by (rule fl_le_int)
  moreover have "rat_of_int K \<le> rat_of_int (2 ^ 53)"
    using assms(3) by (simp only: of_int_le_iff)
  moreover have "0 \<le> fl x" using assms(1) by (rule fl_nonneg)
  ultimately have "\<bar>fl x\<bar> \<le> 2 powi 53" by simp
  then have "expo \<bar>fl x\<bar> \<le> 53" by (rule expo_le [OF pos])
  then show ?thesis by (simp add: of_fl_def)
qed

lemma of_fl_int:
  assumes "0 \<le> k" and "k \<le> 2 ^ 53"
  shows "of_fl (rat_of_int k) = jsint k"
proof -
  have "of_fl (rat_of_int k) = Fin (fl (rat_of_int k))"
    using assms by (intro of_fl_small [of _ k]) simp_all
  moreover have "\<bar>k\<bar> \<le> 2 ^ 53" using assms by simp
  ultimately show ?thesis by (simp add: fl_of_int)
qed

lemma floor_numeral_div: "\<lfloor>(numeral a :: rat) / numeral b\<rfloor> = numeral a div numeral b"
  using floor_divide_of_int_eq [of "numeral a" "numeral b", where ?'a = rat] by simp

section \<open>The ramp-up profile on integers\<close>

text \<open>
  On integers up to \<open>2^53\<close> and a positive ramp-up time, the three rounded operations
  of the ramp-up profile give finite numbers: the sum is exact, the quotient \<open>q\<close> is a
  rounded fraction, and the product is at most \<open>maxUsers\<close>.
\<close>

lemma rampup_value:
  assumes "0 \<le> t" and "t < 2 ^ 53" and "1 \<le> mx" and "mx \<le> 2 ^ 53" and "0 < r"
  shows "getUsers_rampup (jsint t) (jsint d) (jsint mx) (jsint r) =
           jsint (max 1 \<lfloor>fl (rat_of_int mx * min 1 (fl (rat_of_int (t + 1) / rat_of_int r)))\<rfloor>)"
    and "0 \<le> fl (rat_of_int mx * min 1 (fl (rat_of_int (t + 1) / rat_of_int r)))"
    and "fl (rat_of_int mx * min 1 (fl (rat_of_int (t + 1) / rat_of_int r))) \<le> rat_of_int mx"
proof -
  define q where "q = fl (rat_of_int (t + 1) / rat_of_int r)"
  define p where "p = fl (rat_of_int mx * min 1 q)"
  have rpos: "0 < rat_of_int r" "1 \<le> rat_of_int r" using assms(5) by simp_all
  have sum: "js_add_r (jsint t) (Fin 1) = jsint (t + 1)"
    using of_fl_int [of "t + 1"] assms(1,2) by simp
  have frac: "0 \<le> rat_of_int (t + 1) / rat_of_int r"
    "rat_of_int (t + 1) / rat_of_int r \<le> rat_of_int (t + 1)"
    using assms(1) rpos by (simp_all add: divide_le_eq mult_le_cancel_left1)
  have "of_fl (rat_of_int (t + 1) / rat_of_int r) = Fin q"
    unfolding q_def using frac assms(2) by (intro of_fl_small [of _ "t + 1"]) simp_all
  then have quot: "js_div_r (jsint (t + 1)) (jsint r) = Fin q"
    using assms(5) by simp
  have q0: "0 \<le> q" unfolding q_def using frac(1) by (rule fl_nonneg)
  have m: "0 \<le> min 1 q" "min 1 q \<le> 1" using q0 by simp_all
  have prod: "0 \<le> rat_of_int mx * min 1 q" "rat_of_int mx * min 1 q \<le> rat_of_int mx"
    using m assms(3) by (simp_all add: mult_le_cancel_left2)
  have "of_fl (rat_of_int mx * min 1 q) = Fin p"
    unfolding p_def using prod assms(4) by (intro of_fl_small [of _ mx]) simp_all
  then have mul: "js_mul_r (jsint mx) (Fin (min 1 q)) = Fin p"
    by simp
  have neg: "\<not> js_le (jsint r) (Fin 0)" using assms(5) by simp
  have "getUsers_rampup (jsint t) (jsint d) (jsint mx) (jsint r) = jsint (max 1 \<lfloor>p\<rfloor>)"
    unfolding getUsers_rampup_def if_not_P [OF neg] sum quot js_min_Fin mul
    by (simp add: max_one_of_int)
  then show "getUsers_rampup (jsint t) (jsint d) (jsint mx) (jsint r) =
           jsint (max 1 \<lfloor>fl (rat_of_int mx * min 1 (fl (rat_of_int (t + 1) / rat_of_int r)))\<rfloor>)"
    by (simp only: p_def q_def)
  show "0 \<le> fl (rat_of_int mx * min 1 (fl (rat_of_int (t + 1) / rat_of_int r)))"
    using prod(1) unfolding q_def by (rule fl_nonneg)
  show "fl (rat_of_int mx * min 1 (fl (rat_of_int (t + 1) / rat_of_int r))) \<le> rat_of_int mx"
    using prod assms(4) unfolding q_def by (rule fl_le_int)
qed

lemma rampup_off:
  assumes "r \<le> 0"
  shows "getUsers_rampup (jsint t) (jsint d) (jsint mx) (jsint r) = jsint mx"
  using assms by (simp add: getUsers_rampup_def)


lemma rampup_full:
  assumes "0 \<le> t" and "t < 2 ^ 53" and "1 \<le> mx" and "mx \<le> 2 ^ 53" and "0 < r"
    and "r \<le> t + 1"
  shows "getUsers_rampup (jsint t) (jsint d) (jsint mx) (jsint r) = jsint mx"
    and "rampup_spec t mx r = mx"
proof -
  have one: "1 \<le> rat_of_int (t + 1) / rat_of_int r"
    using assms(5,6) by (simp add: le_divide_eq)
  then have "1 \<le> fl (rat_of_int (t + 1) / rat_of_int r)" by (rule fl_ge_one)
  then have m: "min 1 (fl (rat_of_int (t + 1) / rat_of_int r)) = 1" by simp
  have "\<bar>mx\<bar> \<le> 2 ^ 53" using assms(3,4) by simp
  then have "fl (rat_of_int mx) = rat_of_int mx" by (rule fl_of_int)
  then show "getUsers_rampup (jsint t) (jsint d) (jsint mx) (jsint r) = jsint mx"
    using assms(3) unfolding rampup_value(1) [OF assms(1-5)] m by simp
  show "rampup_spec t mx r = mx"
    using one assms(3) by (simp add: rampup_spec_def min_absorb1)
qed

text \<open>
  While the load still ramps (\<open>t + 1 < rampUp\<close>), the two roundings move the product by
  less than \<open>1 / rampUp\<close> from the exact \<open>maxUsers * (t + 1) / rampUp\<close>, so its floor is
  the exact floor, or one less when the exact value is an integer.
\<close>

lemma rampup_error:
  assumes "0 \<le> t" and "1 \<le> mx" and "0 < r" and "t + 1 < r" and "2 * mx * r < 2 ^ 53"
  shows "\<bar>fl (rat_of_int mx * min 1 (fl (rat_of_int (t + 1) / rat_of_int r)))
            - rat_of_int (mx * (t + 1)) / rat_of_int r\<bar> < 1 / rat_of_int r"
proof -
  define R where "R = rat_of_int r"
  define M where "M = rat_of_int mx"
  define x where "x = rat_of_int (t + 1) / R"
  define q where "q = fl x"
  define p where "p = fl (M * q)"
  define eps where "eps = (1::rat) / 2 ^ 53"
  have R: "0 < R" "1 \<le> R" and M: "1 \<le> M" "0 < M"
    using assms(2,3) by (simp_all add: R_def M_def)
  have "2 * (1 * r) \<le> 2 * (mx * r)"
    using assms(2,3) by (intro mult_left_mono mult_right_mono) simp_all
  then have "r < 2 ^ 53" using assms(5) by simp
  then have "rat_of_int r < rat_of_int (2 ^ 53)" by (simp only: of_int_less_iff)
  then have R53: "R < 2 ^ 53" by (simp add: R_def)
  have "rat_of_int (2 * mx * r) < rat_of_int (2 ^ 53)"
    using assms(5) by (simp only: of_int_less_iff)
  then have MR: "2 * M * R < 2 ^ 53" by (simp add: M_def R_def)
  have eps: "0 < eps" "eps = 2 powi (- 53)" by (simp_all add: eps_def power_int_minus_divide)
  have "1 \<le> rat_of_int (t + 1)" using assms(1) by simp
  then have x_lo: "1 / R \<le> x" unfolding x_def using R(1) by (simp add: divide_right_mono)
  have "rat_of_int (t + 1) < R" unfolding R_def using assms(4) by (simp only: of_int_less_iff)
  then have x_hi: "x < 1" unfolding x_def using R(1) by simp
  have x_pos: "0 < x" using x_lo R(1) by (meson divide_pos_pos less_le_trans zero_less_one)
  have "eps < 1 / R" unfolding eps_def using R53 R(1) by (simp add: frac_less2)
  then have "eps \<le> x" using x_lo by simp
  moreover have "(2::rat) powi (- 1022) \<le> 2 powi (- 53)"
    by (intro power_int_increasing) simp_all
  ultimately have x_normal: "2 powi (- 1022) \<le> x" using eps(2) by simp
  have q_err: "\<bar>q - x\<bar> \<le> x * eps"
    using fl_error [OF x_normal] by (simp add: q_def eps_def)
  have "x * eps \<le> 1 * eps" using x_hi eps(1) by (intro mult_right_mono) simp_all
  then have q_err1: "\<bar>q - x\<bar> \<le> eps" using q_err by simp
  have q1: "q \<le> 1" unfolding q_def using fl_le_int [of x 1] x_pos x_hi by simp
  have "x * eps \<le> x * (1 / 2)" using x_pos by (intro mult_left_mono) (simp_all add: eps_def)
  then have "x / 2 \<le> q" using q_err by (simp add: abs_le_iff)
  moreover have "1 / (2 * R) \<le> x / 2" using x_lo by simp
  ultimately have q_lo: "1 / (2 * R) \<le> q" by simp
  have q_pos: "0 < q" using q_lo R(1) by (meson divide_pos_pos less_le_trans mult_pos_pos zero_less_numeral zero_less_one)
  have y_hi: "M * q \<le> M" using q1 M(2) by simp
  have "1 * q \<le> M * q" using M(1) q_pos by (intro mult_right_mono) simp_all
  then have y_lo: "1 / (2 * R) \<le> M * q" using q_lo by simp
  have "2 * R < 2 * 2 ^ 53" using R53 by simp
  then have "1 / (2 * 2 ^ 53) < 1 / (2 * R)" using R(1) by (intro frac_less2) simp_all
  moreover have "(1::rat) / (2 * 2 ^ 53) = 2 powi (- 54)" by (simp add: power_int_minus_divide)
  moreover have "(2::rat) powi (- 1022) \<le> 2 powi (- 54)"
    by (intro power_int_increasing) simp_all
  ultimately have y_normal: "2 powi (- 1022) \<le> M * q" using y_lo by simp
  have "\<bar>p - M * q\<bar> \<le> M * q * eps"
    using fl_error [OF y_normal] by (simp add: p_def eps_def)
  moreover have "M * q * eps \<le> M * eps" using y_hi eps(1) by (intro mult_right_mono) simp_all
  ultimately have p_err: "\<bar>p - M * q\<bar> \<le> M * eps" by simp
  have "\<bar>M * q - M * x\<bar> = M * \<bar>q - x\<bar>"
    using M(2) by (simp add: abs_mult flip: right_diff_distrib)
  also have "\<dots> \<le> M * eps" using q_err1 M(2) by (intro mult_left_mono) simp_all
  finally have y_err: "\<bar>M * q - M * x\<bar> \<le> M * eps" .
  have "\<bar>p - M * x\<bar> \<le> \<bar>p - M * q\<bar> + \<bar>M * q - M * x\<bar>" by simp
  then have total: "\<bar>p - M * x\<bar> \<le> 2 * M * eps" using p_err y_err by simp
  have "2 * M * eps * R = 2 * M * R / 2 ^ 53" by (simp add: eps_def)
  also have "\<dots> < 1" using MR by simp
  finally have "2 * M * eps < 1 / R" using R(1) by (simp add: pos_less_divide_eq)
  then have "\<bar>p - M * x\<bar> < 1 / R" using total by simp
  moreover have "M * x = rat_of_int (mx * (t + 1)) / R" by (simp add: M_def x_def)
  moreover have "min 1 q = q" using q1 by simp
  ultimately show ?thesis
    by (simp add: p_def q_def x_def M_def R_def)
qed

lemma floor_near_quotient:
  assumes "0 < r" and "\<bar>p - rat_of_int n / rat_of_int r\<bar> < 1 / rat_of_int r"
  shows "\<lfloor>p\<rfloor> = n div r \<or> (r dvd n \<and> \<lfloor>p\<rfloor> = n div r - 1)"
proof -
  define R where "R = rat_of_int r"
  have R: "0 < R" using assms(1) by (simp add: R_def)
  have n: "rat_of_int n = rat_of_int (n div r) * R + rat_of_int (n mod r)"
    unfolding R_def by (metis of_int_add of_int_mult div_mult_mod_eq)
  from assms(2) have "p * R - rat_of_int n < 1" "rat_of_int n - p * R < 1"
    using R by (simp_all add: R_def abs_less_iff field_simps)
  then have close: "p * R < rat_of_int (n div r) * R + rat_of_int (n mod r + 1)"
    "rat_of_int (n div r) * R + rat_of_int (n mod r - 1) < p * R"
    unfolding n by simp_all
  have md: "0 \<le> n mod r" "n mod r < r" using assms(1) by simp_all
  show ?thesis
  proof (cases "n mod r = 0")
    case True
    then have dv: "r dvd n" by (simp add: dvd_eq_mod_eq_0)
    have "p * R < (rat_of_int (n div r) + 1) * R"
      using close(1) True R(1) assms(1) by (simp add: algebra_simps R_def)
    then have "p < rat_of_int (n div r + 1)" using R by simp
    then have hi: "\<lfloor>p\<rfloor> < n div r + 1" by (simp only: floor_less_iff)
    have "(rat_of_int (n div r) - 1) * R < p * R"
      using close(2) True R(1) assms(1) by (simp add: algebra_simps R_def)
    then have "rat_of_int (n div r - 1) < p" using R by simp
    then have "n div r - 1 \<le> \<lfloor>p\<rfloor>" by (simp add: le_floor_iff)
    with hi dv show ?thesis by linarith
  next
    case False
    then have f: "1 \<le> n mod r" using md(1) by simp
    have "rat_of_int (n mod r + 1) \<le> R"
      unfolding R_def using md(2) by (simp only: of_int_le_iff)
    then have "p * R < (rat_of_int (n div r) + 1) * R"
      using close(1) by (simp add: algebra_simps)
    then have "p < rat_of_int (n div r + 1)" using R by simp
    then have hi: "\<lfloor>p\<rfloor> < n div r + 1" by (simp only: floor_less_iff)
    have "0 \<le> rat_of_int (n mod r - 1)" using f by simp
    then have "rat_of_int (n div r) * R < p * R" using close(2) by simp
    then have "rat_of_int (n div r) < p" using R by simp
    then have "n div r \<le> \<lfloor>p\<rfloor>" by (simp add: le_floor_iff)
    with hi show ?thesis by linarith
  qed
qed

lemma rampup_spec_ramp:
  assumes "0 < r" and "t + 1 < r" and "0 \<le> t"
  shows "rampup_spec t mx r = max 1 ((mx * (t + 1)) div r)"
proof -
  have "rat_of_int (t + 1) < rat_of_int r" using assms(2) by (simp only: of_int_less_iff)
  then have "rat_of_int (t + 1) / rat_of_int r < 1" using assms(1) by simp
  then have "min 1 (rat_of_int (t + 1) / rat_of_int r) = rat_of_int (t + 1) / rat_of_int r"
    by simp
  moreover have "rat_of_int mx * (rat_of_int (t + 1) / rat_of_int r) =
      rat_of_int (mx * (t + 1)) / rat_of_int r" by simp
  ultimately show ?thesis
    by (simp only: rampup_spec_def floor_divide_of_int_eq)
qed

lemma rampup_ramp:
  assumes "0 \<le> t" and "1 \<le> mx" and "0 < r" and "t + 1 < r" and "2 * mx * r < 2 ^ 53"
  shows "getUsers_rampup (jsint t) (jsint d) (jsint mx) (jsint r) = jsint (rampup_spec t mx r)
         \<or> (r dvd mx * (t + 1)
             \<and> getUsers_rampup (jsint t) (jsint d) (jsint mx) (jsint r) =
                 jsint (rampup_spec t mx r - 1))"
proof -
  define p where "p = fl (rat_of_int mx * min 1 (fl (rat_of_int (t + 1) / rat_of_int r)))"
  define k where "k = (mx * (t + 1)) div r"
  have "2 * (mx * 1) \<le> 2 * (mx * r)"
    using assms(2,3) by (intro mult_left_mono) simp_all
  then have mx53: "mx \<le> 2 ^ 53" using assms(5) by simp
  have "2 * (1 * r) \<le> 2 * (mx * r)"
    using assms(2,3) by (intro mult_left_mono mult_right_mono) simp_all
  then have t53: "t < 2 ^ 53" using assms(4,5) by simp
  have val: "getUsers_rampup (jsint t) (jsint d) (jsint mx) (jsint r) = jsint (max 1 \<lfloor>p\<rfloor>)"
    unfolding p_def by (rule rampup_value(1) [OF assms(1) t53 assms(2) mx53 assms(3)])
  have spec: "rampup_spec t mx r = max 1 k"
    unfolding k_def by (rule rampup_spec_ramp [OF assms(3,4,1)])
  from floor_near_quotient [OF assms(3) rampup_error [OF assms]]
  have "\<lfloor>p\<rfloor> = k \<or> (r dvd mx * (t + 1) \<and> \<lfloor>p\<rfloor> = k - 1)"
    unfolding p_def k_def .
  then show ?thesis
  proof
    assume "\<lfloor>p\<rfloor> = k"
    then show ?thesis using val spec by simp
  next
    assume a: "r dvd mx * (t + 1) \<and> \<lfloor>p\<rfloor> = k - 1"
    show ?thesis
    proof (cases "2 \<le> k")
      case True
      then have "max 1 \<lfloor>p\<rfloor> = max 1 k - 1" using a by simp
      then show ?thesis using val spec a by simp
    next
      case False
      then have "max 1 \<lfloor>p\<rfloor> = max 1 k" using a by simp
      then show ?thesis using val spec by simp
    qed
  qed
qed

text \<open>Two values of the profile, computed: the rounding is visible in the first.\<close>

lemma fl_7_10: "fl (7 / 10) = 3152519739159347 / 4503599627370496"
  using fl_eval [of "- 1" "7 / 10" 6305039478318694] by simp

lemma fl_63: "fl (141863388262170615 / 2251799813685248) =
    8866461766385663 / 140737488355328"
  using fl_eval [of 5 "141863388262170615 / 2251799813685248" 8866461766385663] by simp

lemma fl_1_5: "fl (1 / 5) = 3602879701896397 / 18014398509481984"
  using fl_eval [of "- 3" "1 / 5" 7205759403792794] by simp

lemma fl_20: "fl (90071992547409925 / 4503599627370496) = 20"
  using fl_eval [of 4 "90071992547409925 / 4503599627370496" 5629499534213120] by simp

lemma rampup_at_6_90_10:
  "getUsers_rampup (jsint 6) (jsint d) (jsint 90) (jsint 10) = jsint 62"
  using rampup_value(1) [of 6 90 10 d] by (simp add: fl_7_10 fl_63 floor_numeral_div)

lemma rampup_at_0_100_5:
  "getUsers_rampup (jsint 0) (jsint d) (jsint 100) (jsint 5) = jsint 20"
  using rampup_value(1) [of 0 100 5 d] by (simp add: fl_1_5 fl_20)

section \<open>The spike and stress profiles compute the formulas of the specification\<close>








section \<open>Claims about the load profiles\<close>




text \<open>
  C5, as amended. For integers \<open>0 \<le> t < 2^53\<close>, \<open>1 \<le> maxUsers \<le> 2^53\<close> and \<open>rampUp\<close> with
  \<open>2 * maxUsers * rampUp < 2^53\<close>: the ramp-up profile returns \<open>maxUsers\<close> when
  \<open>rampUp \<le> 0\<close>, and also when \<open>0 < rampUp \<le> t + 1\<close>, where the formula
  \<open>max(1, floor(maxUsers * min(1, (t+1)/rampUp)))\<close> gives \<open>maxUsers\<close> as well; when
  \<open>rampUp > 0\<close> it returns the value of the formula or, only if \<open>rampUp\<close> divides
  \<open>maxUsers * (t+1)\<close>, one less (the quotient and the product are rounded to doubles
  before the floor). With \<open>maxUsers = 100\<close> and \<open>rampUp = 5\<close> it returns 20 at tick 0, 100
  at tick 4 and 100 at tick 10, whatever the duration.
\<close>

theorem rampup_formula:
  assumes "0 \<le> t" and "t < 2 ^ 53" and "1 \<le> maxUsers" and "maxUsers \<le> 2 ^ 53"
    and "2 * maxUsers * r < 2 ^ 53"
  shows "(r \<le> 0 \<longrightarrow>
            getUsers_rampup (jsint t) (jsint d) (jsint maxUsers) (jsint r) = jsint maxUsers)
         \<and> (0 < r \<and> r \<le> t + 1 \<longrightarrow>
            getUsers_rampup (jsint t) (jsint d) (jsint maxUsers) (jsint r) = jsint maxUsers
            \<and> rampup_spec t maxUsers r = maxUsers)
         \<and> (0 < r \<longrightarrow>
            getUsers_rampup (jsint t) (jsint d) (jsint maxUsers) (jsint r) =
              jsint (rampup_spec t maxUsers r)
            \<or> (r dvd maxUsers * (t + 1)
                \<and> getUsers_rampup (jsint t) (jsint d) (jsint maxUsers) (jsint r) =
                    jsint (rampup_spec t maxUsers r - 1)))
         \<and> getUsers_rampup (jsint 0) (jsint d) (jsint 100) (jsint 5) = jsint 20
         \<and> getUsers_rampup (jsint 4) (jsint d) (jsint 100) (jsint 5) = jsint 100
         \<and> getUsers_rampup (jsint 10) (jsint d) (jsint 100) (jsint 5) = jsint 100"
proof -
  let ?res = "getUsers_rampup (jsint t) (jsint d) (jsint maxUsers) (jsint r)"
  have off: "?res = jsint maxUsers" if "r \<le> 0"
    using that by (rule rampup_off)
  have full: "?res = jsint maxUsers \<and> rampup_spec t maxUsers r = maxUsers"
    if "0 < r \<and> r \<le> t + 1"
  proof -
    from that have r: "0 < r" "r \<le> t + 1" by simp_all
    from rampup_full(1) [OF assms(1-4) r, where d = d] rampup_full(2) [OF assms(1-4) r]
    show ?thesis by simp
  qed
  have ramp: "?res = jsint (rampup_spec t maxUsers r)
      \<or> (r dvd maxUsers * (t + 1) \<and> ?res = jsint (rampup_spec t maxUsers r - 1))" if "0 < r"
  proof (cases "r \<le> t + 1")
    case True
    then show ?thesis using full that by simp
  next
    case False
    then have "t + 1 < r" by simp
    from rampup_ramp [OF assms(1,3) that this assms(5), of d] show ?thesis .
  qed
  have e4: "getUsers_rampup (jsint 4) (jsint d) (jsint 100) (jsint 5) = jsint 100"
    by (rule rampup_full(1)) simp_all
  have e10: "getUsers_rampup (jsint 10) (jsint d) (jsint 100) (jsint 5) = jsint 100"
    by (rule rampup_full(1)) simp_all
  from off full ramp rampup_at_0_100_5 [of d] e4 e10 show ?thesis by blast
qed

theorem rampup_formula_witness:
  "(0::int) \<le> 6 \<and> (6::int) < 2 ^ 53 \<and> (1::int) \<le> 90 \<and> (90::int) \<le> 2 ^ 53
   \<and> (2::int) * 90 * 10 < 2 ^ 53 \<and> (0::int) < 10 \<and> (10::int) dvd 90 * (6 + 1)
   \<and> getUsers_rampup (jsint 6) (jsint 20) (jsint 90) (jsint 10) = jsint (rampup_spec 6 90 10 - 1)
   \<and> getUsers_rampup (jsint 6) (jsint 20) (jsint 90) (jsint 0) = jsint 90"
proof -
  have spec: "rampup_spec 6 90 10 = 63"
    by (simp add: rampup_spec_def floor_numeral_div)
  have "getUsers_rampup (jsint 6) (jsint 20) (jsint 90) (jsint 10) \<noteq> jsint (rampup_spec 6 90 10)"
    unfolding spec rampup_at_6_90_10 by simp
  then show ?thesis
    using rampup_formula [where t = 6 and d = 20 and maxUsers = 90 and r = 10]
      rampup_formula [where t = 6 and d = 20 and maxUsers = 90 and r = 0]
    by simp
qed

text \<open>
  C5 as stated fails where the rounding shows: at \<open>t = 6\<close>, \<open>maxUsers = 90\<close>,
  \<open>rampUp = 10\<close> the formula gives \<open>floor(90 * 7/10) = 63\<close>, and the code, which computes
  \<open>90 * 0.7 = 62.99999999999999\<close>, returns 62.
\<close>

theorem rampup_formula_counterexample:
  "getUsers_rampup (jsint 6) (jsint 20) (jsint 90) (jsint 10) = jsint 62
   \<and> rampup_spec 6 90 10 = 63"
  using rampup_at_6_90_10 [of 20] by (simp add: rampup_spec_def floor_numeral_div)







text \<open>
  C8. On every input, whether a finite number, an infinity or NaN, the custom profile
  returns what the ramp-up profile returns.
\<close>

theorem custom_eq_rampup:
  "getUsers Custom t d maxUsers r = getUsers Rampup t d maxUsers r"
  by (simp add: getUsers_custom_def getUsers_rampup_def)

section \<open>Claims about building the request\<close>

lemma set_auth_empty_token: "set_auth btoa h authType [] st = Inr st"
  by (simp add: set_auth_def)

lemma set_auth_none: "set_auth btoa h ''none'' authToken st = Inr st"
  by (simp add: set_auth_def)

lemma obj_set_content_type:
  "obj_set ''Content-Type'' v h = AList.update ''Content-Type'' v h"
  by (simp add: obj_set_def array_index_def)

lemma content_type_or_default_nonempty: "content_type_or_default h \<noteq> []"
  by (simp add: content_type_or_default_def split: option.splits)

text \<open>
  What the claim says does hold on one side: the json body is passed through unchanged,
  and the request either carries a non-empty \<open>Content-Type\<close> or carries no header at
  all.
\<close>

lemma json_body_and_content_type:
  assumes "meth \<noteq> GET" and "meth \<noteq> HEAD" and "bodyContent \<noteq> []"
    and "buildFetchOptions btoa meth hs authType authToken ''json'' bodyContent = Inr os"
  shows "body (fst os) = Some (BodyString bodyContent)"
    and "sent_headers os = [] \<or>
         (\<exists>v. map_of (sent_headers os) ''Content-Type'' = Some v \<and> v \<noteq> [])"
proof -
  obtain st where auth: "set_auth btoa 0 authType authToken (set_headers 0 hs (\<lambda>_. [])) = Inr st"
    using assms(4) by (auto simp: buildFetchOptions_def Let_def split: sum.splits)
  have os: "os = set_body 0 ''json'' bodyContent
      (if length (map fst (st 0)) \<noteq> 0
       then \<lparr>method' = meth, mode = ''no-cors'', headers = None, body = None\<rparr>\<lparr>headers := Some 0\<rparr>
       else \<lparr>method' = meth, mode = ''no-cors'', headers = None, body = None\<rparr>, st)"
    using assms(4) by (simp add: buildFetchOptions_def Let_def auth)
  show "body (fst os) = Some (BodyString bodyContent)"
    using assms(1-3) by (simp add: os set_body_def)
  show "sent_headers os = [] \<or>
         (\<exists>v. map_of (sent_headers os) ''Content-Type'' = Some v \<and> v \<noteq> [])"
    using assms(1-3)
    by (simp add: os set_body_def sent_headers_def obj_set_content_type update_conv'
        content_type_or_default_nonempty)
qed

text \<open>
  With one enabled header the object \<open>h\<close> is attached to \<open>opts\<close> before the body is
  set, and the default \<open>Content-Type\<close> written afterwards reaches the request.
\<close>

lemma json_content_type_kept:
  "map_sum id sent_headers
     (buildFetchOptions btoa POST [\<lparr>key = ''Accept'', value' = ''*/*'', enabled = True, id' = ''h1''\<rparr>]
        ''none'' '''' ''json'' ''{}'') =
   Inr [(''Accept'', ''*/*''), (''Content-Type'', ''application/json'')]"
  by (simp add: buildFetchOptions_def set_headers_def set_auth_def set_body_def sent_headers_def
      content_type_or_default_def obj_set_def array_index_def)

text \<open>
  C2 says that a json body sent with a method other than GET and HEAD carries the header
  \<open>Content-Type: application/json\<close> whenever the caller set no \<open>Content-Type\<close>, also when
  the request has no other header and no auth header. In that last case the code does
  not do it: \<open>opts.headers = h\<close> is guarded by \<open>Object.keys(h).length\<close> and runs before
  the default is written to \<open>h\<close>. With the initial header row of the component (an empty
  key), no auth and the body \<open>{}\<close>, the body is passed through, \<open>opts.headers\<close> stays
  undefined and the request carries no header.
\<close>

theorem json_content_type_lost:
  "map_sum id sent_headers
     (buildFetchOptions btoa POST [\<lparr>key = '''', value' = '''', enabled = True, id' = ''h1''\<rparr>]
        ''none'' '''' ''json'' ''{}'') = Inr []
   \<and> map_sum id (body \<circ> fst)
     (buildFetchOptions btoa POST [\<lparr>key = '''', value' = '''', enabled = True, id' = ''h1''\<rparr>]
        ''none'' '''' ''json'' ''{}'') = Inr (Some (BodyString ''{}''))
   \<and> map_sum id (headers \<circ> fst)
     (buildFetchOptions btoa POST [\<lparr>key = '''', value' = '''', enabled = True, id' = ''h1''\<rparr>]
        ''none'' '''' ''json'' ''{}'') = Inr None"
  by (simp add: buildFetchOptions_def set_headers_def set_auth_def set_body_def sent_headers_def)

text \<open>
  C10. With an empty token, every auth kind (\<open>bearer\<close>, \<open>basic\<close>, \<open>apikey\<close>, and any
  other string) gives the very request that the kind \<open>none\<close> gives: no auth header is
  added.
\<close>

theorem empty_token_no_auth_header:
  "buildFetchOptions btoa meth hs authType [] bodyType bodyContent =
   buildFetchOptions btoa meth hs ''none'' authToken bodyType bodyContent"
  by (simp add: buildFetchOptions_def set_auth_empty_token set_auth_none)

section \<open>Sums, sorted lists and ranks\<close>

lemma foldl_add_sum_list: "foldl (\<lambda>a b. a + b) a xs = a + sum_list (xs::int list)"
  by (induction xs arbitrary: a) simp_all

lemma sum_list_lower: "\<forall>x\<in>set xs. m \<le> x \<Longrightarrow> int (length xs) * m \<le> sum_list xs"
  by (induction xs) (auto simp: algebra_simps)

lemma sum_list_upper: "\<forall>x\<in>set xs. x \<le> m \<Longrightarrow> sum_list xs \<le> int (length xs) * m"
  by (induction xs) (auto simp: algebra_simps)

lemma js_index_nth: "i < length xs \<Longrightarrow> js_index xs (jsint (int i)) = Some (jsint (xs ! i))"
  by simp

lemma round_mean_bounds:
  assumes "0 < n" and "int n * m \<le> S" and "S \<le> int n * M"
  shows "m \<le> \<lfloor>rat_of_int S / rat_of_int (int n) + 1 / 2\<rfloor>"
    and "\<lfloor>rat_of_int S / rat_of_int (int n) + 1 / 2\<rfloor> \<le> M"
proof -
  have pos: "0 < rat_of_int (int n)" using assms(1) by simp
  have "rat_of_int (int n * m) \<le> rat_of_int S"
    using assms(2) by (simp only: of_int_le_iff)
  then have "rat_of_int m \<le> rat_of_int S / rat_of_int (int n)"
    using pos by (simp add: le_divide_eq mult.commute)
  then have "rat_of_int m \<le> rat_of_int S / rat_of_int (int n) + 1 / 2"
    by simp
  then show "m \<le> \<lfloor>rat_of_int S / rat_of_int (int n) + 1 / 2\<rfloor>"
    by (simp only: le_floor_iff)
  have "rat_of_int S \<le> rat_of_int (int n * M)"
    using assms(3) by (simp only: of_int_le_iff)
  then have "rat_of_int S / rat_of_int (int n) \<le> rat_of_int M"
    using pos by (simp add: divide_le_eq mult.commute)
  then have "rat_of_int S / rat_of_int (int n) + 1 / 2 < rat_of_int M + 1"
    by simp
  then have "\<lfloor>rat_of_int S / rat_of_int (int n) + 1 / 2\<rfloor> < M + 1"
    unfolding floor_less_iff by simp
  then show "\<lfloor>rat_of_int S / rat_of_int (int n) + 1 / 2\<rfloor> \<le> M"
    by simp
qed

lemma sort_eq_Nil [simp]: "sort xs = [] \<longleftrightarrow> xs = []"
  using length_sort [of "\<lambda>x. x" xs] by (metis length_0_conv)

lemma sorted_ends:
  assumes "sorted ys" and "ys \<noteq> []"
  shows "\<forall>y\<in>set ys. ys ! 0 \<le> y" and "\<forall>y\<in>set ys. y \<le> ys ! (length ys - 1)"
proof -
  show "\<forall>y\<in>set ys. ys ! 0 \<le> y"
  proof
    fix y assume "y \<in> set ys"
    then obtain i where "i < length ys" "ys ! i = y" by (auto simp: in_set_conv_nth)
    then show "ys ! 0 \<le> y" using sorted_nth_mono [OF assms(1), of 0 i] by simp
  qed
  show "\<forall>y\<in>set ys. y \<le> ys ! (length ys - 1)"
  proof
    fix y assume "y \<in> set ys"
    then obtain i where "i < length ys" "ys ! i = y" by (auto simp: in_set_conv_nth)
    then show "y \<le> ys ! (length ys - 1)"
      using sorted_nth_mono [OF assms(1), of i "length ys - 1"] by simp
  qed
qed

lemma summarize_counts:
  "successCount (summarize c s) + errorCount (summarize c s) = totalRequests (summarize c s)"
  by (simp add: summarize_def Let_def)

lemma summarize_empty:
  assumes "allTimes s = []"
  shows "avgResponseTime (summarize c s) = Fin 0" "minResponseTime (summarize c s) = Fin 0"
    "maxResponseTime (summarize c s) = Fin 0" "p95 (summarize c s) = Some (Fin 0)"
    "p99 (summarize c s) = Some (Fin 0)"
  using assms by (simp_all add: summarize_def)

lemma summarize_nonempty:
  assumes "allTimes s \<noteq> []"
  defines "ys \<equiv> sort (allTimes s)"
  shows "avgResponseTime (summarize c s) =
           jsint \<lfloor>rat_of_int (sum_list ys) / rat_of_int (int (length ys)) + 1 / 2\<rfloor>"
    and "minResponseTime (summarize c s) = jsint (ys ! 0)"
    and "maxResponseTime (summarize c s) = jsint (ys ! (length ys - 1))"
proof -
  have ne: "ys \<noteq> []" "length ys \<noteq> 0" "0 < length ys"
    using assms by (auto simp: ys_def)
  show "avgResponseTime (summarize c s) =
           jsint \<lfloor>rat_of_int (sum_list ys) / rat_of_int (int (length ys)) + 1 / 2\<rfloor>"
    using ne by (simp add: summarize_def Let_def ys_def [symmetric] foldl_add_sum_list)
  have "js_index ys (Fin 0) = Some (jsint (ys ! 0))"
    using ne by simp
  then show "minResponseTime (summarize c s) = jsint (ys ! 0)"
    by (simp add: summarize_def Let_def ys_def [symmetric])
  have "js_sub (jsint (int (length ys))) (Fin 1) = jsint (int (length ys) - 1)"
    by simp
  also have "int (length ys) - 1 = int (length ys - 1)"
    using ne(3) by linarith
  finally have last_index:
    "js_sub (jsint (int (length ys))) (Fin 1) = jsint (int (length ys - 1))" .
  have last_elem:
    "js_index ys (jsint (int (length ys - 1))) = Some (jsint (ys ! (length ys - 1)))"
    using ne by (intro js_index_nth) simp
  have "maxResponseTime (summarize c s) =
      nullish_or (js_index ys (js_sub (jsint (int (length ys))) (Fin 1))) (Fin 0)"
    by (simp add: summarize_def Let_def ys_def)
  also have "\<dots> = jsint (ys ! (length ys - 1))"
    by (simp only: last_index last_elem nullish_or.simps)
  finally show "maxResponseTime (summarize c s) = jsint (ys ! (length ys - 1))" .
qed

lemma summarize_ordered:
  "js_le (minResponseTime (summarize c s)) (avgResponseTime (summarize c s))
   \<and> js_le (avgResponseTime (summarize c s)) (maxResponseTime (summarize c s))"
proof (cases "allTimes s = []")
  case True
  then show ?thesis by (simp add: summarize_empty)
next
  case False
  define ys where "ys = sort (allTimes s)"
  have ne: "ys \<noteq> []" "0 < length ys" using False by (auto simp: ys_def)
  have srt: "sorted ys" by (simp add: ys_def)
  note ends = sorted_ends [OF srt ne(1)]
  note b = round_mean_bounds [OF ne(2) sum_list_lower [OF ends(1)] sum_list_upper [OF ends(2)]]
  show ?thesis
    using b by (simp add: summarize_nonempty [OF False] ys_def [symmetric])
qed

lemma rank_in_range:
  assumes "0 < n" and "0 \<le> q" and "q < 1"
  shows "nat \<lfloor>rat_of_nat n * q\<rfloor> < n"
proof -
  have "rat_of_nat n * q < rat_of_nat n * 1"
    using assms by (intro mult_strict_left_mono) simp_all
  then have "\<lfloor>rat_of_nat n * q\<rfloor> < int n"
    unfolding floor_less_iff by simp
  then show ?thesis using assms(1) by linarith
qed

lemma rank_read:
  assumes "0 < length ys" and "0 \<le> q" and "q < 1"
  shows "js_index ys (js_floor (js_mul (jsint (int (length ys))) (Fin q))) =
           Some (jsint (ys ! nat \<lfloor>rat_of_nat (length ys) * q\<rfloor>))"
proof -
  have nonneg: "0 \<le> \<lfloor>rat_of_nat (length ys) * q\<rfloor>"
    using assms(2) by simp
  have "js_floor (js_mul (jsint (int (length ys))) (Fin q)) =
      jsint \<lfloor>rat_of_nat (length ys) * q\<rfloor>"
    by simp
  also have "\<lfloor>rat_of_nat (length ys) * q\<rfloor> = int (nat \<lfloor>rat_of_nat (length ys) * q\<rfloor>)"
    using nonneg by simp
  finally have "js_floor (js_mul (jsint (int (length ys))) (Fin q)) =
      jsint (int (nat \<lfloor>rat_of_nat (length ys) * q\<rfloor>))" .
  then show ?thesis
    using js_index_nth [OF rank_in_range [OF assms]] by (simp only:)
qed

lemma js_round_int: "js_round (jsint k) = jsint k"
proof -
  have "\<lfloor>rat_of_int k + 1 / 2\<rfloor> = k"
    by (simp add: floor_eq_iff)
  then show ?thesis by simp
qed

lemma tick_empty:
  assumes "filter (\<lambda>r. 0 < r) results = []"
  shows "tick_avg results = Fin 0" "tick_p95 results = Some (Fin 0)"
    "tick_p99 results = Some (Fin 0)"
  using assms by (simp_all add: tick_avg_def tick_p95_def tick_p99_def)

lemma tick_nonempty:
  assumes "filter (\<lambda>r. 0 < r) results \<noteq> []"
  defines "ys \<equiv> sort (filter (\<lambda>r. 0 < r) results)"
  shows "tick_p95 results = Some (jsint (ys ! nat \<lfloor>rat_of_nat (length ys) * (95 / 100)\<rfloor>))"
    and "tick_p99 results = Some (jsint (ys ! nat \<lfloor>rat_of_nat (length ys) * (99 / 100)\<rfloor>))"
    and "tick_avg results =
           Fin (rat_of_int (sum_list (filter (\<lambda>r. 0 < r) results)) / rat_of_nat (length ys))"
proof -
  have ne: "0 < length ys" "length ys \<noteq> 0"
    using assms(1) by (simp_all add: ys_def)
  show "tick_p95 results = Some (jsint (ys ! nat \<lfloor>rat_of_nat (length ys) * (95 / 100)\<rfloor>))"
    unfolding tick_p95_def Let_def ys_def [symmetric] if_P [OF ne(2)]
    by (rule rank_read [OF ne(1)]) simp_all
  show "tick_p99 results = Some (jsint (ys ! nat \<lfloor>rat_of_nat (length ys) * (99 / 100)\<rfloor>))"
    unfolding tick_p99_def Let_def ys_def [symmetric] if_P [OF ne(2)]
    by (rule rank_read [OF ne(1)]) simp_all
  show "tick_avg results =
           Fin (rat_of_int (sum_list (filter (\<lambda>r. 0 < r) results)) / rat_of_nat (length ys))"
    using assms(1) by (simp add: tick_avg_def Let_def ys_def foldl_add_sum_list)
qed

lemma summarize_ranks:
  assumes "allTimes s \<noteq> []"
  defines "ys \<equiv> sort (allTimes s)"
  shows "p95 (summarize c s) = Some (jsint (ys ! nat \<lfloor>rat_of_nat (length ys) * (95 / 100)\<rfloor>))"
    and "p99 (summarize c s) = Some (jsint (ys ! nat \<lfloor>rat_of_nat (length ys) * (99 / 100)\<rfloor>))"
proof -
  have ne: "0 < length ys" "length ys \<noteq> 0"
    using assms(1) by (simp_all add: ys_def)
  have "p95 (summarize c s) =
      js_index ys (js_floor (js_mul (jsint (int (length ys))) (Fin (95 / 100))))"
    using ne(2) by (simp add: summarize_def Let_def ys_def)
  then show "p95 (summarize c s) =
      Some (jsint (ys ! nat \<lfloor>rat_of_nat (length ys) * (95 / 100)\<rfloor>))"
    using rank_read [OF ne(1), of "95 / 100"] by (simp only:)
  have "p99 (summarize c s) =
      js_index ys (js_floor (js_mul (jsint (int (length ys))) (Fin (99 / 100))))"
    using ne(2) by (simp add: summarize_def Let_def ys_def)
  then show "p99 (summarize c s) =
      Some (jsint (ys ! nat \<lfloor>rat_of_nat (length ys) * (99 / 100)\<rfloor>))"
    using rank_read [OF ne(1), of "99 / 100"] by (simp only:)
qed

lemma promise_all_append:
  "promise_all (xs @ ys) s =
     (case promise_all xs s of
        (rs, s') \<Rightarrow> (case promise_all ys s' of (rs', s'') \<Rightarrow> (rs @ rs', s'')))"
  by (induction xs arbitrary: s) (simp_all split: prod.splits)

lemma promise_all_Cons:
  "promise_all (x # xs) s =
     (fst (promise_body x s) # fst (promise_all xs (snd (promise_body x s))),
      snd (promise_all xs (snd (promise_body x s))))"
  by (simp split: prod.splits)

lemma promise_all_results:
  "fst (promise_all os s) = map (\<lambda>x. case x of Resolved d \<Rightarrow> d | Rejected \<Rightarrow> - 1) os"
proof (induction os arbitrary: s)
  case Nil
  show ?case by simp
next
  case (Cons x os)
  show ?case
    unfolding promise_all_Cons by (cases x) (simp_all add: Cons)
qed

lemma promise_all_totalReqs:
  "totalReqs (snd (promise_all os s)) = totalReqs s + int (length os)"
proof (induction os arbitrary: s)
  case Nil
  show ?case by simp
next
  case (Cons x os)
  show ?case
    unfolding promise_all_Cons by (cases x) (simp_all add: Cons)
qed

lemma promise_all_errors:
  "errors (snd (promise_all os s)) = errors s + int (length (filter (\<lambda>x. x = Rejected) os))"
proof (induction os arbitrary: s)
  case Nil
  show ?case by simp
next
  case (Cons x os)
  show ?case
    unfolding promise_all_Cons by (cases x) (simp_all add: Cons)
qed

lemma promise_all_allTimes:
  "allTimes (snd (promise_all os s)) = allTimes s @ [d. Resolved d \<leftarrow> os]"
proof (induction os arbitrary: s)
  case Nil
  show ?case by simp
next
  case (Cons x os)
  show ?case
    unfolding promise_all_Cons by (cases x) (simp_all add: Cons)
qed

lemma valid_skips_zero:
  "filter (\<lambda>r. 0 < r) (fst (promise_all (xs @ Resolved 0 # ys) s)) =
   filter (\<lambda>r. 0 < r) (fst (promise_all (xs @ ys) s))"
  by (simp add: promise_all_results)

lemma tick_stats_valid:
  "filter (\<lambda>r. 0 < r) rs = filter (\<lambda>r. 0 < r) rs' \<Longrightarrow>
     tick_avg rs = tick_avg rs' \<and> tick_p95 rs = tick_p95 rs' \<and> tick_p99 rs = tick_p99 rs'"
  by (simp add: tick_avg_def tick_p95_def tick_p99_def)

lemma summarize_totalRequests: "totalRequests (summarize c s) = totalReqs s"
  by (simp add: summarize_def Let_def)

lemma tick_totalReqs:
  "totalReqs (tick e c t s) =
     totalReqs s
     + int (to_length (getUsers (testProfile c) (jsint (int t)) (jsint (duration c))
                         (jsint (concurrentUsers c)) (jsint (rampUp c))))"
proof -
  let ?os = "map (fetch_outcome e t)
      [0..<to_length (getUsers (testProfile c) (jsint (int t)) (jsint (duration c))
                        (jsint (concurrentUsers c)) (jsint (rampUp c)))]"
  have "totalReqs (tick e c t s) = totalReqs (snd (promise_all ?os s))"
    by (simp add: tick_def Let_def split: prod.splits)
  then show ?thesis
    by (simp add: promise_all_totalReqs)
qed

section \<open>Claims about the run\<close>

text \<open>
  C3. Every run, completed or cancelled, ends with a summary in which
  \<open>successCount + errorCount = totalRequests\<close> and, whenever \<open>totalRequests > 0\<close>,
  \<open>minResponseTime \<le> avgResponseTime \<le> maxResponseTime\<close>. (\<open>run_loop\<close> is total, so
  every environment yields a summary.)
\<close>

theorem summary_invariant:
  "successCount (snd (runTest e c)) + errorCount (snd (runTest e c))
     = totalRequests (snd (runTest e c))
   \<and> (0 < totalRequests (snd (runTest e c)) \<longrightarrow>
        js_le (minResponseTime (snd (runTest e c))) (avgResponseTime (snd (runTest e c)))
        \<and> js_le (avgResponseTime (snd (runTest e c))) (maxResponseTime (snd (runTest e c))))"
  using summarize_counts summarize_ordered by (simp add: runTest_def Let_def)


theorem summary_invariant_witness:
  "0 < totalRequests (snd (runTest example_env example_config))
   \<and> successCount (snd (runTest example_env example_config))
       + errorCount (snd (runTest example_env example_config))
       = totalRequests (snd (runTest example_env example_config))
   \<and> js_le (minResponseTime (snd (runTest example_env example_config)))
        (avgResponseTime (snd (runTest example_env example_config)))
   \<and> js_le (avgResponseTime (snd (runTest example_env example_config)))
        (maxResponseTime (snd (runTest example_env example_config)))"
proof -
  have "totalReqs (run_loop example_env example_config 0
      \<lparr>allTimes = [], totalReqs = 0, errors = 0, metrics = []\<rparr>) = 6"
    by (simp add: run_loop.simps tick_totalReqs example_env_def example_config_def
        getUsers_fixed_def)
  then have "totalRequests (snd (runTest example_env example_config)) = 6"
    by (simp add: runTest_def Let_def summarize_totalRequests)
  then show ?thesis
    using summary_invariant [of example_env example_config] by simp
qed


text \<open>
  C4. For the latencies of a tick (the strictly positive results) and for the latencies
  of the whole run: when the sorted list is not empty, \<open>floor(n * 0.95)\<close> and
  \<open>floor(n * 0.99)\<close> are indices of it, and p95 and p99 are the elements there, read
  without leaving the array, and the average is a finite number; when it is empty, the
  average, p95 and p99 are 0.
\<close>

theorem percentile_rank:
  "(let sorted' = sort (filter (\<lambda>r. 0 < r) results); n = length sorted'
    in (n \<noteq> 0 \<longrightarrow>
          nat \<lfloor>rat_of_nat n * (95 / 100)\<rfloor> < n \<and> nat \<lfloor>rat_of_nat n * (99 / 100)\<rfloor> < n
          \<and> tick_p95 results = Some (jsint (sorted' ! nat \<lfloor>rat_of_nat n * (95 / 100)\<rfloor>))
          \<and> tick_p99 results = Some (jsint (sorted' ! nat \<lfloor>rat_of_nat n * (99 / 100)\<rfloor>))
          \<and> p95_tick (tick_point t users results st) =
              jsint (sorted' ! nat \<lfloor>rat_of_nat n * (95 / 100)\<rfloor>)
          \<and> p99_tick (tick_point t users results st) =
              jsint (sorted' ! nat \<lfloor>rat_of_nat n * (99 / 100)\<rfloor>)
          \<and> (\<exists>a. tick_avg results = Fin a))
       \<and> (n = 0 \<longrightarrow>
          tick_avg results = Fin 0 \<and> tick_p95 results = Some (Fin 0)
          \<and> tick_p99 results = Some (Fin 0)
          \<and> avgResponseTime_tick (tick_point t users results st) = Fin 0
          \<and> p95_tick (tick_point t users results st) = Fin 0
          \<and> p99_tick (tick_point t users results st) = Fin 0))
   \<and> (let sortedAll = sort (allTimes s); n = length sortedAll
       in (n \<noteq> 0 \<longrightarrow>
             nat \<lfloor>rat_of_nat n * (95 / 100)\<rfloor> < n \<and> nat \<lfloor>rat_of_nat n * (99 / 100)\<rfloor> < n
             \<and> p95 (summarize c s) = Some (jsint (sortedAll ! nat \<lfloor>rat_of_nat n * (95 / 100)\<rfloor>))
             \<and> p99 (summarize c s) = Some (jsint (sortedAll ! nat \<lfloor>rat_of_nat n * (99 / 100)\<rfloor>))
             \<and> (\<exists>a. avgResponseTime (summarize c s) = Fin a))
          \<and> (n = 0 \<longrightarrow>
             avgResponseTime (summarize c s) = Fin 0 \<and> p95 (summarize c s) = Some (Fin 0)
             \<and> p99 (summarize c s) = Some (Fin 0)))"
proof -
  let ?v = "filter (\<lambda>r. 0 < r) results"
  let ?ys = "sort ?v"
  let ?zs = "sort (allTimes s)"
  have tick_some: "nat \<lfloor>rat_of_nat (length ?ys) * (95 / 100)\<rfloor> < length ?ys
      \<and> nat \<lfloor>rat_of_nat (length ?ys) * (99 / 100)\<rfloor> < length ?ys
      \<and> tick_p95 results = Some (jsint (?ys ! nat \<lfloor>rat_of_nat (length ?ys) * (95 / 100)\<rfloor>))
      \<and> tick_p99 results = Some (jsint (?ys ! nat \<lfloor>rat_of_nat (length ?ys) * (99 / 100)\<rfloor>))
      \<and> p95_tick (tick_point t users results st) =
          jsint (?ys ! nat \<lfloor>rat_of_nat (length ?ys) * (95 / 100)\<rfloor>)
      \<and> p99_tick (tick_point t users results st) =
          jsint (?ys ! nat \<lfloor>rat_of_nat (length ?ys) * (99 / 100)\<rfloor>)
      \<and> (\<exists>a. tick_avg results = Fin a)" if "length ?ys \<noteq> 0"
  proof -
    have ne: "?v \<noteq> []" and pos: "0 < length ?ys"
      using that by simp_all
    note p = tick_nonempty [OF ne]
    have "p95_tick (tick_point t users results st) = js_round_u (tick_p95 results)"
      and "p99_tick (tick_point t users results st) = js_round_u (tick_p99 results)"
      by (simp_all add: tick_point_def)
    then have "p95_tick (tick_point t users results st) =
          jsint (?ys ! nat \<lfloor>rat_of_nat (length ?ys) * (95 / 100)\<rfloor>)"
      and "p99_tick (tick_point t users results st) =
          jsint (?ys ! nat \<lfloor>rat_of_nat (length ?ys) * (99 / 100)\<rfloor>)"
      by (simp_all only: p js_round_u.simps js_round_int)
    then show ?thesis
      using p rank_in_range [OF pos, of "95 / 100"] rank_in_range [OF pos, of "99 / 100"]
      by simp
  qed
  have tick_none: "tick_avg results = Fin 0 \<and> tick_p95 results = Some (Fin 0)
      \<and> tick_p99 results = Some (Fin 0)
      \<and> avgResponseTime_tick (tick_point t users results st) = Fin 0
      \<and> p95_tick (tick_point t users results st) = Fin 0
      \<and> p99_tick (tick_point t users results st) = Fin 0" if "length ?ys = 0"
  proof -
    have "?v = []" using that by simp
    from tick_empty [OF this] show ?thesis
      by (simp add: tick_point_def floor_eq_iff)
  qed
  have run_some: "nat \<lfloor>rat_of_nat (length ?zs) * (95 / 100)\<rfloor> < length ?zs
      \<and> nat \<lfloor>rat_of_nat (length ?zs) * (99 / 100)\<rfloor> < length ?zs
      \<and> p95 (summarize c s) = Some (jsint (?zs ! nat \<lfloor>rat_of_nat (length ?zs) * (95 / 100)\<rfloor>))
      \<and> p99 (summarize c s) = Some (jsint (?zs ! nat \<lfloor>rat_of_nat (length ?zs) * (99 / 100)\<rfloor>))
      \<and> (\<exists>a. avgResponseTime (summarize c s) = Fin a)" if "length ?zs \<noteq> 0"
  proof -
    have ne: "allTimes s \<noteq> []" and pos: "0 < length ?zs"
      using that by simp_all
    show ?thesis
      using summarize_ranks [OF ne, of c] summarize_nonempty(1) [OF ne, of c]
        rank_in_range [OF pos, of "95 / 100"] rank_in_range [OF pos, of "99 / 100"]
      by simp
  qed
  have run_none: "avgResponseTime (summarize c s) = Fin 0 \<and> p95 (summarize c s) = Some (Fin 0)
      \<and> p99 (summarize c s) = Some (Fin 0)" if "length ?zs = 0"
  proof -
    have "allTimes s = []" using that by simp
    from summarize_empty [OF this, of c] show ?thesis by simp
  qed
  show ?thesis
    unfolding Let_def using tick_some tick_none run_some run_none by blast
qed


theorem percentile_rank_witness:
  "tick_p95 [30, - 1, 10, 0, 20] = Some (Fin 30)
   \<and> tick_p99 [30, - 1, 10, 0, 20] = Some (Fin 30)
   \<and> tick_p95 [- 1, 0] = Some (Fin 0)
   \<and> tick_avg [- 1, 0] = Fin 0
   \<and> p95 (summarize example_config \<lparr>allTimes = [30, 10, 0, 20], totalReqs = 5, errors = 1, metrics = []\<rparr>)
       = Some (Fin 30)
   \<and> avgResponseTime (summarize example_config \<lparr>allTimes = [], totalReqs = 2, errors = 2, metrics = []\<rparr>)
       = Fin 0"
proof -
  have s1: "sort (filter (\<lambda>r. 0 < r) [30, - 1, 10, 0, 20 :: int]) = [10, 20, 30]"
    by code_simp
  have s2: "sort (filter (\<lambda>r. 0 < r) [- 1, 0 :: int]) = []"
    by code_simp
  have s3: "sort [30, 10, 0, 20 :: int] = [0, 10, 20, 30]"
    by code_simp
  have f: "nat \<lfloor>rat_of_nat (length [10, 20, 30 :: int]) * (95 / 100)\<rfloor> = 2"
    "nat \<lfloor>rat_of_nat (length [10, 20, 30 :: int]) * (99 / 100)\<rfloor> = 2"
    "nat \<lfloor>rat_of_nat (length [0, 10, 20, 30 :: int]) * (95 / 100)\<rfloor> = 3"
    "nat \<lfloor>rat_of_nat (length [0, 10, 20, 30 :: int]) * (99 / 100)\<rfloor> = 3"
    by code_simp+
  note nonempty = percentile_rank [where results = "[30, - 1, 10, 0, 20]" and c = example_config
      and s = "\<lparr>allTimes = [30, 10, 0, 20], totalReqs = 5, errors = 1, metrics = []\<rparr>",
      unfolded Let_def run_state.select_convs s1 s3 f]
  note empty = percentile_rank [where results = "[- 1, 0]" and c = example_config
      and s = "\<lparr>allTimes = [], totalReqs = 2, errors = 2, metrics = []\<rparr>",
      unfolded Let_def run_state.select_convs s2]
  show ?thesis
    using nonempty empty by simp
qed


text \<open>
  C9. A resolved request with a latency of 0 ms among the promises of a tick counts in
  \<open>totalReqs\<close> and puts its 0 on \<open>allTimes\<close>, from which the summary is computed; the
  average, p95 and p99 of the tick are those of the tick without it, and they depend on
  the strictly positive results only.
\<close>

theorem zero_latency_counted_not_sampled:
  "(case promise_all (xs @ Resolved 0 # ys) s of
      (results, s') \<Rightarrow>
        totalReqs s' = totalReqs s + int (length xs) + 1 + int (length ys)
        \<and> errors s' = errors (snd (promise_all (xs @ ys) s))
        \<and> allTimes s' = allTimes s @ [d. Resolved d \<leftarrow> xs] @ 0 # [d. Resolved d \<leftarrow> ys]
        \<and> tick_avg results = tick_avg (fst (promise_all (xs @ ys) s))
        \<and> tick_p95 results = tick_p95 (fst (promise_all (xs @ ys) s))
        \<and> tick_p99 results = tick_p99 (fst (promise_all (xs @ ys) s))
        \<and> tick_avg results = tick_avg (filter (\<lambda>r. 0 < r) results)
        \<and> tick_p95 results = tick_p95 (filter (\<lambda>r. 0 < r) results)
        \<and> tick_p99 results = tick_p99 (filter (\<lambda>r. 0 < r) results))"
proof -
  obtain results s' where run: "promise_all (xs @ Resolved 0 # ys) s = (results, s')"
    by (cases "promise_all (xs @ Resolved 0 # ys) s")
  have res: "results = fst (promise_all (xs @ Resolved 0 # ys) s)"
    and st: "s' = snd (promise_all (xs @ Resolved 0 # ys) s)"
    by (simp_all add: run)
  have "totalReqs s' = totalReqs s + int (length xs) + 1 + int (length ys)"
    by (simp add: st promise_all_totalReqs)
  moreover have "errors s' = errors (snd (promise_all (xs @ ys) s))"
    by (simp add: st promise_all_errors)
  moreover have "allTimes s' = allTimes s @ [d. Resolved d \<leftarrow> xs] @ 0 # [d. Resolved d \<leftarrow> ys]"
    by (simp add: st promise_all_allTimes)
  moreover note tick_stats_valid [OF valid_skips_zero [of xs ys s], folded res]
  moreover have "filter (\<lambda>r. 0 < r) results = filter (\<lambda>r. 0 < r) (filter (\<lambda>r. 0 < r) results)"
    by simp
  note tick_stats_valid [OF this]
  ultimately show ?thesis
    by (simp only: run prod.case)
qed

theorem zero_latency_counted_not_sampled_witness:
  "(case promise_all [Resolved 12, Resolved 0, Rejected]
           \<lparr>allTimes = [], totalReqs = 0, errors = 0, metrics = []\<rparr> of
      (results, s') \<Rightarrow>
        results = [12, 0, - 1] \<and> totalReqs s' = 3 \<and> errors s' = 1 \<and> allTimes s' = [12, 0]
        \<and> tick_avg results = Fin 12 \<and> tick_p95 results = Some (Fin 12)
        \<and> tick_p99 results = Some (Fin 12))
   \<and> avgResponseTime (summarize example_config
        (snd (promise_all [Resolved 12, Resolved 0, Rejected]
           \<lparr>allTimes = [], totalReqs = 0, errors = 0, metrics = []\<rparr>))) = Fin 6
   \<and> minResponseTime (summarize example_config
        (snd (promise_all [Resolved 12, Resolved 0, Rejected]
           \<lparr>allTimes = [], totalReqs = 0, errors = 0, metrics = []\<rparr>))) = Fin 0"
proof -
  have a: "tick_avg (fst (promise_all ([Resolved 12] @ [Rejected])
      \<lparr>allTimes = [], totalReqs = 0, errors = 0, metrics = []\<rparr>)) = Fin 12"
    by code_simp
  have b: "tick_p95 (fst (promise_all ([Resolved 12] @ [Rejected])
      \<lparr>allTimes = [], totalReqs = 0, errors = 0, metrics = []\<rparr>)) = Some (Fin 12)"
    by code_simp
  have c: "tick_p99 (fst (promise_all ([Resolved 12] @ [Rejected])
      \<lparr>allTimes = [], totalReqs = 0, errors = 0, metrics = []\<rparr>)) = Some (Fin 12)"
    by code_simp
  have at: "allTimes (snd (promise_all [Resolved 12, Resolved 0, Rejected]
      \<lparr>allTimes = [], totalReqs = 0, errors = 0, metrics = []\<rparr>)) = [12, 0]"
    by (simp add: promise_all_allTimes)
  have ne: "allTimes (snd (promise_all [Resolved 12, Resolved 0, Rejected]
      \<lparr>allTimes = [], totalReqs = 0, errors = 0, metrics = []\<rparr>)) \<noteq> []"
    by (simp add: at)
  have srt: "sort [12, 0 :: int] = [0, 12]"
    by code_simp
  have d: "avgResponseTime (summarize example_config
        (snd (promise_all [Resolved 12, Resolved 0, Rejected]
           \<lparr>allTimes = [], totalReqs = 0, errors = 0, metrics = []\<rparr>))) = Fin 6"
    unfolding summarize_nonempty(1) [OF ne] at srt by (simp add: floor_numeral_div)
  have e: "minResponseTime (summarize example_config
        (snd (promise_all [Resolved 12, Resolved 0, Rejected]
           \<lparr>allTimes = [], totalReqs = 0, errors = 0, metrics = []\<rparr>))) = Fin 0"
    unfolding summarize_nonempty(2) [OF ne] at srt by simp
  show ?thesis
    using zero_latency_counted_not_sampled [where xs = "[Resolved 12]" and ys = "[Rejected]"
        and s = "\<lparr>allTimes = [], totalReqs = 0, errors = 0, metrics = []\<rparr>"] a b c d e
    by simp
qed

end
